theory Spec2Isabelle
  imports Complex_Main "HOL-Library.Multiset" "HOL-Library.Log_Nat"
begin

section \<open>Cat Chaos: a shallow embedding of \<^verbatim>\<open>code.py\<close>\<close>

text \<open>
  The program is a CircuitPython game. Its module-level globals (\<^verbatim>\<open>encoder_value\<close>,
  \<^verbatim>\<open>last_state\<close>, \<^verbatim>\<open>fx\<close>, \<^verbatim>\<open>fy\<close>, \<^verbatim>\<open>fz\<close>) become the fields of one record
  that every function takes and returns. The hardware the program polls (the monotonic
  clock, the three encoder lines, the accelerometer) is an input stream \<open>env\<close>: the
  \<open>n\<close>-th poll reads \<open>env n\<close>, and the record counts the polls made so far. The random
  source is a stream \<open>rnd\<close> of raw draws, consumed the same way. Python integers are
  \<open>int\<close>. Python floats are real numbers in the game logic, where no claim depends on
  rounding; the accelerometer filter is given a second time with a rounding operator
  after every operation, so that what rounding does to it can be stated. Display, LED
  and buzzer output carry no value back into the program and are left out.
\<close>

subsection \<open>Program state and hardware samples\<close>

record world =
  encoder_value :: int
  last_state :: "bool \<times> bool"
  fx :: real
  fy :: real
  fz :: real
  tick :: nat
  draws :: nat

record sample =
  monotonic :: real
  clk_value :: bool
  dt_value :: bool
  sw_value :: bool
  acceleration :: "real \<times> real \<times> real"

datatype py_error = IndexError | OSError | ValueError

subsection \<open>Rotary encoder (lines 131-154)\<close>

text \<open>
  \<^verbatim>\<open>update_encoder\<close> reads the pair \<^verbatim>\<open>(clk.value, dt.value)\<close>; the pair read is the
  first argument. A pin value is a Python bool, so \<^verbatim>\<open>last_state[0] == 0\<close> holds exactly
  when the stored clock level is \<^verbatim>\<open>False\<close>.
\<close>

definition update_encoder :: "bool \<times> bool \<Rightarrow> world \<Rightarrow> world" where
  "update_encoder state w =
     (if state \<noteq> last_state w then
        (let w1 =
           (if fst (last_state w) = False \<and> fst state = True then
              (if snd state = False then w\<lparr>encoder_value := encoder_value w + 1\<rparr>
               else w\<lparr>encoder_value := encoder_value w - 1\<rparr>)
            else w)
         in w1\<lparr>last_state := state\<rparr>)
      else w)"

text \<open>Feeding a whole sequence of sampled pairs, one call per pair.\<close>

fun feed_encoder :: "(bool \<times> bool) list \<Rightarrow> world \<Rightarrow> world" where
  "feed_encoder [] w = w"
| "feed_encoder (p # ps) w = feed_encoder ps (update_encoder p w)"

text \<open>
  The change of the counter the specification ascribes to one sampled pair, given the
  pair stored before it.
\<close>

definition encoder_delta :: "bool \<times> bool \<Rightarrow> bool \<times> bool \<Rightarrow> int" where
  "encoder_delta prev cur =
     (if cur \<noteq> prev \<and> \<not> fst prev \<and> fst cur then (if snd cur then - 1 else 1) else 0)"

fun encoder_deltas :: "bool \<times> bool \<Rightarrow> (bool \<times> bool) list \<Rightarrow> int" where
  "encoder_deltas prev [] = 0"
| "encoder_deltas prev (p # ps) = encoder_delta prev p + encoder_deltas p ps"

subsection \<open>Accelerometer filter (lines 166-190)\<close>

definition alpha :: real where
  "alpha = 0.2"

definition read_accel :: "real \<times> real \<times> real \<Rightarrow> world \<Rightarrow> (real \<times> real \<times> real) \<times> world" where
  "read_accel raw w =
     (case raw of (x, y, z) \<Rightarrow>
        (let w1 = w\<lparr>fx := alpha * x + (1 - alpha) * fx w\<rparr>;
             w2 = w1\<lparr>fy := alpha * y + (1 - alpha) * fy w1\<rparr>;
             w3 = w2\<lparr>fz := alpha * z + (1 - alpha) * fz w2\<rparr>
         in ((fx w3, fy w3, fz w3), w3)))"

text \<open>The state after \<open>n\<close> calls that all read the same raw sample.\<close>

fun feed_accel :: "real \<times> real \<times> real \<Rightarrow> nat \<Rightarrow> world \<Rightarrow> world" where
  "feed_accel raw 0 w = w"
| "feed_accel raw (Suc n) w = snd (read_accel raw (feed_accel raw n w))"

subsection \<open>The filter in floating-point arithmetic\<close>

text \<open>
  A float operation returns the exact result rounded to the format. The rounding is a
  parameter \<open>fl\<close>; the identity gives exact arithmetic. In line 186,
  \<^verbatim>\<open>alpha*x + (1-alpha)*fx\<close>, the literal \<^verbatim>\<open>0.2\<close> is rounded when it is read, and so
  is each of the two products, the difference and the sum.
\<close>

definition ema :: "(real \<Rightarrow> real) \<Rightarrow> real \<Rightarrow> real \<Rightarrow> real" where
  "ema fl x f = fl (fl (fl 0.2 * x) + fl (fl (1 - fl 0.2) * f))"

definition read_accel_fl ::
  "(real \<Rightarrow> real) \<Rightarrow> real \<times> real \<times> real \<Rightarrow> world \<Rightarrow> (real \<times> real \<times> real) \<times> world" where
  "read_accel_fl fl raw w =
     (case raw of (x, y, z) \<Rightarrow>
        (let w1 = w\<lparr>fx := ema fl x (fx w)\<rparr>;
             w2 = w1\<lparr>fy := ema fl y (fy w1)\<rparr>;
             w3 = w2\<lparr>fz := ema fl z (fz w2)\<rparr>
         in ((fx w3, fy w3, fz w3), w3)))"

text \<open>
  Round to nearest, ties to even, for a binary format of \<open>p\<close> significand bits and
  least exponent \<open>emin\<close>: \<open>expo x\<close> is the \<open>e\<close> with \<open>2 ^ e \<le> \<bar>x\<bar> < 2 ^ (e + 1)\<close>, the
  spacing of the format at \<open>x\<close> is \<open>2 ^ (max e emin - p + 1)\<close>, and \<open>x\<close> goes to the
  nearest multiple of it. Values below \<open>2 ^ emin\<close> are the subnormal ones. The format has
  no largest value here: overflow is not modelled. \<open>binary64\<close> is the double precision
  of CPython floats.
\<close>

definition round_even :: "real \<Rightarrow> int" where
  "round_even y =
     (let n = \<lfloor>y\<rfloor>; r = y - of_int n in
      if r < 1 / 2 then n else if 1 / 2 < r then n + 1 else if even n then n else n + 1)"

definition expo :: "real \<Rightarrow> int" where
  "expo x = (if 1 \<le> \<bar>x\<bar> then bitlen \<lfloor>\<bar>x\<bar>\<rfloor> - 1 else - bitlen (\<lceil>1 / \<bar>x\<bar>\<rceil> - 1))"

definition round_to :: "nat \<Rightarrow> int \<Rightarrow> real \<Rightarrow> real" where
  "round_to p emin x =
     (if x = 0 then 0
      else (let q = 2 powi (max (expo x) emin - int p + 1) in q * of_int (round_even (x / q))))"

definition binary64 :: "real \<Rightarrow> real" where
  "binary64 x = round_to 53 (- 1022) x"

text \<open>
  The usual error model of a rounding operator: relative error at most \<open>u\<close>, or absolute
  error at most \<open>h\<close> where the format underflows.
\<close>

definition rounds_within :: "real \<Rightarrow> real \<Rightarrow> (real \<Rightarrow> real) \<Rightarrow> bool" where
  "rounds_within u h fl = (\<forall>y. \<bar>fl y - y\<bar> \<le> u * \<bar>y\<bar> + h)"

subsection \<open>Sequence generation (lines 290-304)\<close>

definition ACTIONS :: "string list" where
  "ACTIONS = [''PAW'', ''TAIL_LEFT'', ''TAIL_RIGHT'', ''SHAKE'', ''FLIP'']"

text \<open>
  \<^verbatim>\<open>random.choice\<close> is a library function: it returns the element of a non-empty
  sequence at an index below its length, chosen by the random source. The raw draw is
  taken from \<open>rnd\<close> and reduced modulo the length, so every value of the source is
  covered.
\<close>

definition random_choice :: "(nat \<Rightarrow> nat) \<Rightarrow> 'a list \<Rightarrow> world \<Rightarrow> 'a \<times> world" where
  "random_choice rnd xs w = (xs ! (rnd (draws w) mod length xs), w\<lparr>draws := draws w + 1\<rparr>)"

fun choices :: "(nat \<Rightarrow> nat) \<Rightarrow> nat \<Rightarrow> world \<Rightarrow> string list \<times> world" where
  "choices rnd 0 w = ([], w)"
| "choices rnd (Suc n) w =
     (case random_choice rnd ACTIONS w of (a, w1) \<Rightarrow>
        (case choices rnd n w1 of (as, w2) \<Rightarrow> (a # as, w2)))"

text \<open>\<^verbatim>\<open>range(level + 1)\<close> is empty when \<^verbatim>\<open>level + 1\<close> is not positive.\<close>

definition generate_sequence :: "(nat \<Rightarrow> nat) \<Rightarrow> int \<Rightarrow> world \<Rightarrow> string list \<times> world" where
  "generate_sequence rnd level w = choices rnd (nat (level + 1)) w"

subsection \<open>Gesture recognition (lines 307-364)\<close>

text \<open>
  One pass through the body of the \<^verbatim>\<open>while\<close> loop polls the hardware once: the clock
  for the loop condition and, when the condition holds, the encoder lines, the
  accelerometer and the button. All of them are taken from the same sample
  \<open>env (tick w)\<close>. The five \<^verbatim>\<open>if\<close> statements are kept in the order of the source.
  The loop has no bound of its own: it runs until the clock says so, hence the
  \<open>option\<close> result, where \<open>None\<close> stands for a loop that never returns.
\<close>

partial_function (option) detect_loop ::
  "(nat \<Rightarrow> sample) \<Rightarrow> string \<Rightarrow> real \<Rightarrow> real \<Rightarrow> world \<Rightarrow> (bool \<times> world) option" where
  "detect_loop env action start time_limit w =
     (let s = env (tick w); w0 = w\<lparr>tick := tick w + 1\<rparr> in
      if monotonic s - start < time_limit then
        (let w1 = update_encoder (clk_value s, dt_value s) w0;
             r = read_accel (acceleration s) w1;
             x = fst (fst r); z = snd (snd (fst r)); w2 = snd r
         in
           if action = ''PAW'' \<and> \<not> sw_value s then Some (True, w2)
           else if action = ''TAIL_LEFT'' \<and> encoder_value w2 < - 2 then Some (True, w2)
           else if action = ''TAIL_RIGHT'' \<and> encoder_value w2 > 2 then Some (True, w2)
           else if action = ''SHAKE'' \<and> \<bar>x\<bar> > 15 then Some (True, w2)
           else if action = ''FLIP'' \<and> z < - 5 then Some (True, w2)
           else detect_loop env action start time_limit w2)
      else Some (False, w0))"

declare detect_loop.simps [code]

definition detect_action ::
  "(nat \<Rightarrow> sample) \<Rightarrow> string \<Rightarrow> real \<Rightarrow> world \<Rightarrow> (bool \<times> world) option" where
  "detect_action env action time_limit w =
     (let w0 = w\<lparr>encoder_value := 0\<rparr>;
          start = monotonic (env (tick w0));
          w1 = w0\<lparr>tick := tick w0 + 1\<rparr>
      in detect_loop env action start time_limit w1)"

text \<open>
  The vocabulary of the specification, for stating what the loop does: the state after
  one poll and after \<open>k\<close> polls, and the gesture-specific predicate, evaluated on the
  sample just read and the state just updated.
\<close>

definition poll :: "(nat \<Rightarrow> sample) \<Rightarrow> world \<Rightarrow> world" where
  "poll env w =
     snd (read_accel (acceleration (env (tick w)))
            (update_encoder (clk_value (env (tick w)), dt_value (env (tick w)))
               (w\<lparr>tick := tick w + 1\<rparr>)))"

fun polls :: "(nat \<Rightarrow> sample) \<Rightarrow> nat \<Rightarrow> world \<Rightarrow> world" where
  "polls env 0 w = w"
| "polls env (Suc k) w = polls env k (poll env w)"

definition gesture_seen :: "string \<Rightarrow> sample \<Rightarrow> world \<Rightarrow> bool" where
  "gesture_seen action s w =
     (if action = ''PAW'' then \<not> sw_value s
      else if action = ''TAIL_LEFT'' then encoder_value w < - 2
      else if action = ''TAIL_RIGHT'' then encoder_value w > 2
      else if action = ''SHAKE'' then \<bar>fx w\<bar> > 15
      else if action = ''FLIP'' then fz w < - 5
      else False)"

text \<open>
  For a call \<open>detect_action env action time_limit w\<close>: the state the loop starts from,
  whether the \<open>k\<close>-th pass (counted from 0) is still within the deadline, and whether the
  gesture is seen in it.
\<close>

definition attempt_start :: "world \<Rightarrow> world" where
  "attempt_start w = w\<lparr>encoder_value := 0, tick := tick w + 1\<rparr>"

definition in_time :: "(nat \<Rightarrow> sample) \<Rightarrow> real \<Rightarrow> world \<Rightarrow> nat \<Rightarrow> bool" where
  "in_time env time_limit w k =
     (monotonic (env (tick w + 1 + k)) - monotonic (env (tick w)) < time_limit)"

definition seen_at :: "(nat \<Rightarrow> sample) \<Rightarrow> string \<Rightarrow> world \<Rightarrow> nat \<Rightarrow> bool" where
  "seen_at env action w k =
     gesture_seen action (env (tick w + 1 + k)) (polls env (Suc k) (attempt_start w))"

subsection \<open>The game (lines 367-425)\<close>

definition base_time :: "string \<Rightarrow> real" where
  "base_time diff = (if diff = ''EASY'' then 2.0 else if diff = ''MEDIUM'' then 1.5 else 1.0)"

definition time_limit_at :: "real \<Rightarrow> nat \<Rightarrow> real" where
  "time_limit_at base level = base * (0.92 ^ level)"

text \<open>
  The inner \<^verbatim>\<open>for\<close> loop over the gestures of one level. The result is the pair the
  function returns when a gesture fails, \<open>(score, False)\<close>, or \<open>(score, True)\<close> when the
  loop runs to its end.
\<close>

fun play_steps ::
  "(nat \<Rightarrow> sample) \<Rightarrow> real \<Rightarrow> nat \<Rightarrow> string list \<Rightarrow> int \<Rightarrow> world \<Rightarrow> ((int \<times> bool) \<times> world) option" where
  "play_steps env base level [] score w = Some ((score, True), w)"
| "play_steps env base level (act # seq) score w =
     (let time_limit = time_limit_at base level in
      case detect_action env act time_limit w of
        None \<Rightarrow> None
      | Some (ok, w1) \<Rightarrow>
          if \<not> ok then Some ((score, False), w1)
          else play_steps env base level seq (score + 1) w1)"

text \<open>The outer \<^verbatim>\<open>for\<close> loop, over the levels still to play.\<close>

fun play_levels ::
  "(nat \<Rightarrow> sample) \<Rightarrow> (nat \<Rightarrow> nat) \<Rightarrow> real \<Rightarrow> nat list \<Rightarrow> int \<Rightarrow> world \<Rightarrow> ((int \<times> bool) \<times> world) option" where
  "play_levels env rnd base [] score w = Some ((score, True), w)"
| "play_levels env rnd base (level # levels) score w =
     (case generate_sequence rnd (int level) w of (seq, w1) \<Rightarrow>
        (case play_steps env base level seq score w1 of
           None \<Rightarrow> None
         | Some ((score1, ok), w2) \<Rightarrow>
             if \<not> ok then Some ((score1, False), w2)
             else play_levels env rnd base levels (score1 + 5) w2))"

definition play_game ::
  "(nat \<Rightarrow> sample) \<Rightarrow> (nat \<Rightarrow> nat) \<Rightarrow> string \<Rightarrow> world \<Rightarrow> ((int \<times> bool) \<times> world) option" where
  "play_game env rnd diff w = play_levels env rnd (base_time diff) [1..<11] 0 w"

subsection \<open>High scores (lines 431-455 and 577-589)\<close>

record entry =
  entry_name :: string
  entry_score :: int

definition DEFAULT_SCORES :: "entry list" where
  "DEFAULT_SCORES =
     [\<lparr>entry_name = ''AAA'', entry_score = 0\<rparr>,
      \<lparr>entry_name = ''BBB'', entry_score = 0\<rparr>,
      \<lparr>entry_name = ''CCC'', entry_score = 0\<rparr>]"

text \<open>
  \<^verbatim>\<open>open\<close> and \<^verbatim>\<open>json.load\<close> are library functions. The file is \<open>None\<close> when it cannot
  be opened and its text otherwise; the parser is a parameter that either raises or
  returns the entries. The bare \<^verbatim>\<open>except\<close> turns every error into the default list.
\<close>

definition read_store ::
  "(string \<Rightarrow> py_error + entry list) \<Rightarrow> string option \<Rightarrow> py_error + entry list" where
  "read_store json_load file = (case file of None \<Rightarrow> Inl OSError | Some text \<Rightarrow> json_load text)"

definition load_highscores ::
  "(string \<Rightarrow> py_error + entry list) \<Rightarrow> string option \<Rightarrow> py_error + entry list" where
  "load_highscores json_load file =
     (case read_store json_load file of Inl e \<Rightarrow> Inr DEFAULT_SCORES | Inr scores \<Rightarrow> Inr scores)"

text \<open>
  The test \<^verbatim>\<open>score > scores[-1]["score"]\<close> of \<^verbatim>\<open>end_screen\<close>; indexing an empty list
  raises.
\<close>

definition qualifies :: "int \<Rightarrow> entry list \<Rightarrow> py_error + bool" where
  "qualifies score scores =
     (case scores of [] \<Rightarrow> Inl IndexError | _ \<Rightarrow> Inr (score > entry_score (last scores)))"

text \<open>
  \<^verbatim>\<open>sorted(scores, key=..., reverse=True)\<close> is Python's stable sort with every comparison
  reversed: descending keys, equal keys in their original order. That is the stable
  ascending sort on the negated key.
\<close>

definition sorted_reverse :: "('a \<Rightarrow> int) \<Rightarrow> 'a list \<Rightarrow> 'a list" where
  "sorted_reverse key xs = sort_key (\<lambda>x. - key x) xs"

definition insert_score :: "string \<Rightarrow> int \<Rightarrow> entry list \<Rightarrow> entry list" where
  "insert_score name score scores =
     take 3 (sorted_reverse entry_score (scores @ [\<lparr>entry_name = name, entry_score = score\<rparr>]))"

text \<open>
  The high-score part of \<^verbatim>\<open>end_screen\<close>: the list shown at the end and, when the score
  qualified, the list written to the store.
\<close>

definition update_highscores ::
  "string \<Rightarrow> int \<Rightarrow> entry list \<Rightarrow> py_error + (entry list \<times> entry list option)" where
  "update_highscores name score scores =
     (case qualifies score scores of
        Inl e \<Rightarrow> Inl e
      | Inr True \<Rightarrow> (let scores1 = insert_score name score scores in Inr (scores1, Some scores1))
      | Inr False \<Rightarrow> Inr (scores, None))"

text \<open>
  The qualification rule in the words of the specification: the score exceeds the lowest
  score held, where a list of fewer than three entries is filled up with zero scores.
\<close>

definition lowest_held :: "entry list \<Rightarrow> int" where
  "lowest_held scores = Min (set (map entry_score scores @ replicate (3 - length scores) 0))"

definition qualifies_spec :: "int \<Rightarrow> entry list \<Rightarrow> bool" where
  "qualifies_spec score scores = (score > lowest_held scores)"

subsection \<open>Initial state and sample streams\<close>

text \<open>
  The state the module-level code sets up (counter and filter at zero; both encoder lines
  pulled up), and a hardware stream for running the functions: the clock advances by
  half a second per poll, the encoder and the accelerometer rest, and the button is
  held down at the polls that \<open>pressed\<close> selects.
\<close>

definition start_world :: world where
  "start_world =
     \<lparr>encoder_value = 0, last_state = (True, True), fx = 0, fy = 0, fz = 0, tick = 0, draws = 0\<rparr>"

definition button_env :: "(nat \<Rightarrow> bool) \<Rightarrow> nat \<Rightarrow> sample" where
  "button_env pressed n =
     \<lparr>monotonic = real n / 2, clk_value = True, dt_value = True,
      sw_value = (\<not> pressed n), acceleration = (0, 0, 0)\<rparr>"

section \<open>Properties\<close>

subsection \<open>Rotary encoder\<close>

lemma update_encoder_last_state: "last_state (update_encoder p w) = p"
  by (simp add: update_encoder_def Let_def)

lemma update_encoder_delta:
  "encoder_value (update_encoder p w) = encoder_value w + encoder_delta (last_state w) p"
  by (cases p) (auto simp: update_encoder_def encoder_delta_def Let_def)

lemma feed_encoder_deltas:
  "encoder_value (feed_encoder ps w) = encoder_value w + encoder_deltas (last_state w) ps"
  by (induction ps arbitrary: w) (simp_all add: update_encoder_delta update_encoder_last_state)

text \<open>
  Claim C3. One call of \<open>update_encoder\<close> changes the counter only when the pair read
  differs from the stored pair and the clock goes from low to high, and then by \<open>+1\<close> when
  data is low and by \<open>-1\<close> when data is high. The pair read always becomes the stored
  pair, so over a whole sequence of pairs the counter moves by the sum of these changes
  between neighbours. An identical pair, a falling clock and a change of data alone
  contribute \<open>0\<close>.
\<close>

theorem update_encoder_counter:
  "encoder_value (update_encoder (c, d) w) =
     encoder_value w +
       (if (c, d) \<noteq> last_state w \<and> \<not> fst (last_state w) \<and> c then (if d then - 1 else 1) else 0)
   \<and> last_state (update_encoder (c, d) w) = (c, d)
   \<and> encoder_value (feed_encoder ps w) = encoder_value w + encoder_deltas (last_state w) ps
   \<and> encoder_delta p p = 0
   \<and> encoder_delta (True, d') (False, d) = 0
   \<and> encoder_delta (c, d') (c, d) = 0
   \<and> encoder_delta (False, d') (True, False) = 1
   \<and> encoder_delta (False, d') (True, True) = - 1"
proof -
  have "encoder_value (update_encoder (c, d) w) =
     encoder_value w +
       (if (c, d) \<noteq> last_state w \<and> \<not> fst (last_state w) \<and> c then (if d then - 1 else 1) else 0)"
    by (cases "last_state w") (auto simp: update_encoder_delta encoder_delta_def)
  moreover have "last_state (update_encoder (c, d) w) = (c, d)"
    by (rule update_encoder_last_state)
  moreover have "encoder_value (feed_encoder ps w) = encoder_value w + encoder_deltas (last_state w) ps"
    by (rule feed_encoder_deltas)
  moreover have "encoder_delta p p = 0" "encoder_delta (True, d') (False, d) = 0"
    "encoder_delta (c, d') (c, d) = 0" "encoder_delta (False, d') (True, False) = 1"
    "encoder_delta (False, d') (True, True) = - 1"
    by (simp_all add: encoder_delta_def)
  ultimately show ?thesis by blast
qed

theorem update_encoder_counter_witness:
  "encoder_value (feed_encoder [(False, True), (True, False), (True, True), (False, True), (True, True), (True, True)]
      \<lparr>encoder_value = 0, last_state = (True, True), fx = 0, fy = 0, fz = 0, tick = 0, draws = 0\<rparr>) = 0
   \<and> encoder_value (update_encoder (True, False)
      \<lparr>encoder_value = 4, last_state = (False, False), fx = 0, fy = 0, fz = 0, tick = 0, draws = 0\<rparr>) = 5"
  using update_encoder_counter [where c = True and d = False and ps = "[(False, True), (True, False), (True, True), (False, True), (True, True), (True, True)]"
      and w = "\<lparr>encoder_value = 4, last_state = (False, False), fx = 0, fy = 0, fz = 0, tick = 0, draws = 0\<rparr>"]
    update_encoder_counter [where c = True and d = False and ps = "[(False, True), (True, False), (True, True), (False, True), (True, True), (True, True)]"
      and w = "\<lparr>encoder_value = 0, last_state = (True, True), fx = 0, fy = 0, fz = 0, tick = 0, draws = 0\<rparr>"]
  by (simp add: encoder_delta_def)

subsection \<open>Accelerometer filter\<close>

lemma read_accel_eq:
  "read_accel (x, y, z) w =
     ((0.2 * x + 0.8 * fx w, 0.2 * y + 0.8 * fy w, 0.2 * z + 0.8 * fz w),
      w\<lparr>fx := 0.2 * x + 0.8 * fx w, fy := 0.2 * y + 0.8 * fy w, fz := 0.2 * z + 0.8 * fz w\<rparr>)"
  by (simp add: read_accel_def alpha_def Let_def)

lemma feed_accel_step:
  "fx (feed_accel (x, y, z) (Suc n) w) - x = 0.8 * (fx (feed_accel (x, y, z) n w) - x)"
  "fy (feed_accel (x, y, z) (Suc n) w) - y = 0.8 * (fy (feed_accel (x, y, z) n w) - y)"
  "fz (feed_accel (x, y, z) (Suc n) w) - z = 0.8 * (fz (feed_accel (x, y, z) n w) - z)"
  by (simp_all add: read_accel_eq algebra_simps)

lemma geometric_closed:
  fixes f :: "nat \<Rightarrow> real"
  assumes "\<And>n. f (Suc n) - v = 0.8 * (f n - v)"
  shows "f n - v = 0.8 ^ n * (f 0 - v)"
proof (induction n)
  case 0
  show ?case by simp
next
  case (Suc n)
  have "f (Suc n) - v = 0.8 * (f n - v)" by (rule assms)
  also have "\<dots> = 0.8 * (0.8 ^ n * (f 0 - v))" by (simp only: Suc.IH)
  finally show ?case by simp
qed

lemma feed_accel_closed:
  "fx (feed_accel (x, y, z) n w) - x = 0.8 ^ n * (fx w - x)"
  "fy (feed_accel (x, y, z) n w) - y = 0.8 ^ n * (fy w - y)"
  "fz (feed_accel (x, y, z) n w) - z = 0.8 ^ n * (fz w - z)"
  using geometric_closed [of "\<lambda>n. fx (feed_accel (x, y, z) n w)" x n, OF feed_accel_step(1)]
    geometric_closed [of "\<lambda>n. fy (feed_accel (x, y, z) n w)" y n, OF feed_accel_step(2)]
    geometric_closed [of "\<lambda>n. fz (feed_accel (x, y, z) n w)" z n, OF feed_accel_step(3)]
  by simp_all

lemma geometric_tendsto:
  fixes f :: "nat \<Rightarrow> real"
  assumes "\<And>n. f n - v = 0.8 ^ n * c"
  shows "f \<longlonglongrightarrow> v"
proof -
  have "(\<lambda>n. (0.8::real) ^ n) \<longlonglongrightarrow> 0"
    by (rule LIMSEQ_realpow_zero) simp_all
  then have "(\<lambda>n. 0.8 ^ n * c) \<longlonglongrightarrow> 0 * c"
    by (rule tendsto_mult_right)
  then have "(\<lambda>n. 0.8 ^ n * c + v) \<longlonglongrightarrow> 0 * c + v"
    by (rule tendsto_add) (rule tendsto_const)
  moreover have "(\<lambda>n. 0.8 ^ n * c + v) = f"
  proof
    fix n show "0.8 ^ n * c + v = f n" using assms [of n] by simp
  qed
  ultimately show ?thesis by simp
qed

text \<open>
  The rounding operator: the exponent brackets the value, so rounding to nearest moves a
  value by at most half the spacing, which is a relative error of \<open>2 ^ - p\<close> above the
  subnormal range and an absolute error of \<open>2 ^ (emin - p)\<close> in it.
\<close>

lemma round_even_error: "\<bar>y - of_int (round_even y)\<bar> \<le> 1 / 2"
proof -
  have "of_int \<lfloor>y\<rfloor> \<le> y" "y < of_int \<lfloor>y\<rfloor> + 1" by linarith+
  then show ?thesis by (auto simp: round_even_def Let_def)
qed

lemma powi_nonneg: "0 \<le> k \<Longrightarrow> (2::real) powi k = 2 ^ nat k"
  by (simp add: power_int_def)

lemma powi_neg: "0 \<le> k \<Longrightarrow> (2::real) powi (- k) = 1 / 2 ^ nat k"
  by (simp add: power_int_minus powi_nonneg inverse_eq_divide)

lemma bitlen_pos: "0 < n \<Longrightarrow> 1 \<le> bitlen n"
  using bitlen_eq_zero_iff [of n] bitlen_nonneg [of n] by linarith

lemma expo_bounds:
  assumes "x \<noteq> 0"
  shows "2 powi (expo x) \<le> \<bar>x\<bar>" and "\<bar>x\<bar> < 2 powi (expo x + 1)"
proof -
  have "2 powi (expo x) \<le> \<bar>x\<bar> \<and> \<bar>x\<bar> < 2 powi (expo x + 1)"
  proof (cases "1 \<le> \<bar>x\<bar>")
    case True
    define n where "n = \<lfloor>\<bar>x\<bar>\<rfloor>"
    have n: "0 < n" "of_int n \<le> \<bar>x\<bar>" "\<bar>x\<bar> < of_int (n + 1)"
      using True unfolding n_def by linarith+
    have e: "expo x = bitlen n - 1" using True by (simp add: expo_def n_def)
    have k: "0 \<le> bitlen n - 1" using bitlen_pos [OF n(1)] by simp
    from bitlen_bounds [OF n(1)] have b: "2 ^ nat (bitlen n - 1) \<le> n" "n + 1 \<le> 2 ^ nat (bitlen n)"
      by simp_all
    have "(2::real) powi (bitlen n - 1) = of_int (2 ^ nat (bitlen n - 1))"
      using k by (simp add: powi_nonneg)
    also have "\<dots> \<le> of_int n" using b(1) by (simp only: of_int_le_iff)
    finally have lo: "2 powi (bitlen n - 1) \<le> \<bar>x\<bar>" using n(2) by linarith
    have "(2::real) powi (bitlen n - 1 + 1) = of_int (2 ^ nat (bitlen n))"
      using k by (simp add: powi_nonneg)
    moreover have "(of_int (n + 1) :: real) \<le> of_int (2 ^ nat (bitlen n))"
      using b(2) by (simp only: of_int_le_iff)
    ultimately have hi: "\<bar>x\<bar> < 2 powi (bitlen n - 1 + 1)" using n(3) by linarith
    from lo hi e show ?thesis by simp
  next
    case False
    define y where "y = 1 / \<bar>x\<bar>"
    define m where "m = \<lceil>y\<rceil> - 1"
    have x: "0 < \<bar>x\<bar>" "\<bar>x\<bar> < 1" using assms False by simp_all
    then have y: "1 < y" by (simp add: y_def)
    have m: "0 < m" "of_int m < y" "y \<le> of_int (m + 1)"
      using y unfolding m_def by linarith+
    have e: "expo x = - bitlen m" using False by (simp add: expo_def m_def y_def)
    have k: "1 \<le> bitlen m" by (rule bitlen_pos [OF m(1)])
    from bitlen_bounds [OF m(1)] have b: "2 ^ nat (bitlen m - 1) \<le> m" "m + 1 \<le> 2 ^ nat (bitlen m)"
      by simp_all
    have "y \<le> of_int (2 ^ nat (bitlen m))"
    proof -
      have "(of_int (m + 1) :: real) \<le> of_int (2 ^ nat (bitlen m))"
        using b(2) by (simp only: of_int_le_iff)
      with m(3) show ?thesis by linarith
    qed
    then have "1 / \<bar>x\<bar> \<le> 2 ^ nat (bitlen m)" by (simp add: y_def)
    then have "1 / 2 ^ nat (bitlen m) \<le> \<bar>x\<bar>"
      using x(1) by (simp add: field_simps)
    then have lo: "2 powi (- bitlen m) \<le> \<bar>x\<bar>"
      using k by (simp add: powi_neg)
    have "of_int (2 ^ nat (bitlen m - 1)) < y"
    proof -
      have "(of_int (2 ^ nat (bitlen m - 1)) :: real) \<le> of_int m"
        using b(1) by (simp only: of_int_le_iff)
      with m(2) show ?thesis by linarith
    qed
    then have "2 ^ nat (bitlen m - 1) < 1 / \<bar>x\<bar>" by (simp add: y_def)
    then have "\<bar>x\<bar> < 1 / 2 ^ nat (bitlen m - 1)"
      using x(1) by (simp add: field_simps)
    moreover have "(2::real) powi (- bitlen m + 1) = 1 / 2 ^ nat (bitlen m - 1)"
      using k powi_neg [of "bitlen m - 1"] by simp
    ultimately have hi: "\<bar>x\<bar> < 2 powi (- bitlen m + 1)" by simp
    from lo hi e show ?thesis by simp
  qed
  then show "2 powi (expo x) \<le> \<bar>x\<bar>" and "\<bar>x\<bar> < 2 powi (expo x + 1)" by simp_all
qed

lemma round_to_error:
  "\<bar>round_to p emin x - x\<bar> \<le> 2 powi (- int p) * \<bar>x\<bar> + 2 powi (emin - int p)"
proof (cases "x = 0")
  case True
  then show ?thesis by (simp add: round_to_def)
next
  case False
  define E where "E = max (expo x) emin"
  define q :: real where "q = 2 powi (E - int p + 1)"
  have q: "0 < q" by (simp add: q_def)
  have r: "round_to p emin x = q * of_int (round_even (x / q))"
    using False by (simp add: round_to_def Let_def q_def E_def)
  have "round_to p emin x - x = q * (of_int (round_even (x / q)) - x / q)"
    using q by (simp add: r field_simps)
  then have "\<bar>round_to p emin x - x\<bar> = q * \<bar>x / q - of_int (round_even (x / q))\<bar>"
    using q by (simp add: abs_mult abs_minus_commute)
  also have "\<dots> \<le> q * (1 / 2)"
    using q round_even_error [of "x / q"] by (intro mult_left_mono) simp_all
  also have "q * (1 / 2) = 2 powi (E - int p)"
    by (simp add: q_def power_int_add)
  finally have half: "\<bar>round_to p emin x - x\<bar> \<le> 2 powi (E - int p)" .
  show ?thesis
  proof (cases "emin \<le> expo x")
    case True
    then have "E = expo x" by (simp add: E_def)
    then have "(2::real) powi (E - int p) = 2 powi (- int p) * 2 powi (expo x)"
      by (simp add: power_int_diff power_int_minus field_simps)
    also have "\<dots> \<le> 2 powi (- int p) * \<bar>x\<bar>"
      using expo_bounds(1) [OF False] by (intro mult_left_mono) simp_all
    finally have "2 powi (E - int p) \<le> 2 powi (- int p) * \<bar>x\<bar> + 2 powi (emin - int p)"
      by (simp add: add_increasing2)
    with half show ?thesis by linarith
  next
    case False
    then have "E = emin" by (simp add: E_def)
    with half have "\<bar>round_to p emin x - x\<bar> \<le> 2 powi (emin - int p)" by simp
    moreover have "0 \<le> (2::real) powi (- int p) * \<bar>x\<bar>" by simp
    ultimately show ?thesis by linarith
  qed
qed

lemma binary64_rounds: "rounds_within (2 powi (- 53)) (2 powi (- 1075)) binary64"
  unfolding rounds_within_def
proof
  fix y
  have a: "- int 53 = - 53" and b: "- 1022 - int 53 = - 1075" by simp_all
  show "\<bar>binary64 y - y\<bar> \<le> 2 powi (- 53) * \<bar>y\<bar> + 2 powi (- 1075)"
    using round_to_error [of 53 "- 1022" y] unfolding a b binary64_def .
qed

text \<open>
  One update of the filter under any rounding operator within the error model: the five
  roundings of line 186 move the result away from \<open>0.2 * x + 0.8 * f\<close> by a bounded
  amount.
\<close>

lemma ema_error:
  assumes R: "rounds_within u h fl"
    and u: "0 \<le> u" "u \<le> 1 / 8" and h: "0 \<le> h" "h \<le> 1 / 8"
  shows "\<bar>ema fl x f - (0.2 * x + 0.8 * f)\<bar> \<le> (7 * u + 2 * h) * (\<bar>x\<bar> + \<bar>f\<bar>) + 4 * h"
proof -
  define a where "a = fl 0.2"
  define c where "c = 1 - a"
  define b where "b = fl c"
  define p where "p = fl (a * x)"
  define q where "q = fl (b * f)"
  define r where "r = fl (p + q)"
  define X where "X = \<bar>x\<bar>"
  define F where "F = \<bar>f\<bar>"
  define uX where "uX = u * X"
  define uF where "uF = u * F"
  define hX where "hX = h * X"
  define hF where "hF = h * F"
  have err: "\<bar>fl y - y\<bar> \<le> u * \<bar>y\<bar> + h" for y
    using R by (simp add: rounds_within_def)
  have pos: "0 \<le> X" "0 \<le> F" "0 \<le> uX" "0 \<le> uF" "0 \<le> hX" "0 \<le> hF"
    using u h by (simp_all add: X_def F_def uX_def uF_def hX_def hF_def)
  have a1: "\<bar>a - 0.2\<bar> \<le> 0.2 * u + h"
    using err [of "0.2"] by (simp add: a_def)
  then have a2: "\<bar>a\<bar> \<le> 1" using u h by linarith
  have c1: "\<bar>c - 0.8\<bar> \<le> 0.2 * u + h" using a1 by (simp add: c_def)
  then have c2: "\<bar>c\<bar> \<le> 1" using u h by linarith
  have "u * \<bar>c\<bar> \<le> u * 1" using c2 u(1) by (rule mult_left_mono)
  with err [of c] have b0: "\<bar>b - c\<bar> \<le> u + h" by (simp add: b_def)
  with c1 have b1: "\<bar>b - 0.8\<bar> \<le> 1.2 * u + 2 * h" by linarith
  then have b2: "\<bar>b\<bar> \<le> 2" using u h by linarith
  have ax: "\<bar>a * x\<bar> \<le> X"
    using mult_right_mono [OF a2 pos(1)] by (simp add: abs_mult X_def)
  have "u * \<bar>a * x\<bar> \<le> u * X" using ax u(1) by (rule mult_left_mono)
  with err [of "a * x"] have p0: "\<bar>p - a * x\<bar> \<le> uX + h" by (simp add: p_def uX_def)
  have "\<bar>a - 0.2\<bar> * X \<le> (0.2 * u + h) * X" using a1 pos(1) by (rule mult_right_mono)
  then have p1: "\<bar>a * x - 0.2 * x\<bar> \<le> 0.2 * uX + hX"
    by (simp add: abs_mult [symmetric] X_def uX_def hX_def algebra_simps)
  from p0 p1 have p2: "\<bar>p - 0.2 * x\<bar> \<le> 1.2 * uX + hX + h" by linarith
  have bf: "\<bar>b * f\<bar> \<le> 2 * F"
    using mult_right_mono [OF b2 pos(2)] by (simp add: abs_mult F_def)
  have "u * \<bar>b * f\<bar> \<le> u * (2 * F)" using bf u(1) by (rule mult_left_mono)
  with err [of "b * f"] have q0: "\<bar>q - b * f\<bar> \<le> 2 * uF + h" by (simp add: q_def uF_def)
  have "\<bar>b - 0.8\<bar> * F \<le> (1.2 * u + 2 * h) * F" using b1 pos(2) by (rule mult_right_mono)
  then have q1: "\<bar>b * f - 0.8 * f\<bar> \<le> 1.2 * uF + 2 * hF"
    by (simp add: abs_mult [symmetric] F_def uF_def hF_def algebra_simps)
  from q0 q1 have q2: "\<bar>q - 0.8 * f\<bar> \<le> 3.2 * uF + 2 * hF + h" by linarith
  have "uX \<le> (1 / 8) * X" unfolding uX_def using u(2) pos(1) by (rule mult_right_mono)
  moreover have "hX \<le> (1 / 8) * X" unfolding hX_def using h(2) pos(1) by (rule mult_right_mono)
  moreover have "\<bar>0.2 * x\<bar> = 0.2 * X" by (simp add: X_def abs_mult)
  ultimately have p3: "\<bar>p\<bar> \<le> X + h" using p2 pos by linarith
  have "uF \<le> (1 / 8) * F" unfolding uF_def using u(2) pos(2) by (rule mult_right_mono)
  moreover have "hF \<le> (1 / 8) * F" unfolding hF_def using h(2) pos(2) by (rule mult_right_mono)
  moreover have "\<bar>0.8 * f\<bar> = 0.8 * F" by (simp add: F_def abs_mult)
  ultimately have q3: "\<bar>q\<bar> \<le> 2 * F + h" using q2 pos by linarith
  have pq: "\<bar>p + q\<bar> \<le> X + 2 * F + 2 * h" using p3 q3 by linarith
  have "u * \<bar>p + q\<bar> \<le> u * (X + 2 * F + 2 * h)" using pq u(1) by (rule mult_left_mono)
  moreover have "u * h \<le> (1 / 8) * h" using u(2) h(1) by (rule mult_right_mono)
  ultimately have "u * \<bar>p + q\<bar> \<le> uX + 2 * uF + h / 4"
    by (simp add: uX_def uF_def algebra_simps)
  with err [of "p + q"] have r0: "\<bar>r - (p + q)\<bar> \<le> uX + 2 * uF + 5 / 4 * h" by (simp add: r_def)
  from r0 p2 q2 have "\<bar>r - (0.2 * x + 0.8 * f)\<bar> \<le> 2.2 * uX + 5.2 * uF + hX + 2 * hF + 13 / 4 * h"
    by linarith
  moreover have "(7 * u + 2 * h) * (X + F) + 4 * h = 7 * uX + 7 * uF + 2 * hX + 2 * hF + 4 * h"
    by (simp add: uX_def uF_def hX_def hF_def algebra_simps)
  ultimately have "\<bar>r - (0.2 * x + 0.8 * f)\<bar> \<le> (7 * u + 2 * h) * (X + F) + 4 * h"
    using pos h by linarith
  moreover have "ema fl x f = r"
    by (simp add: ema_def r_def p_def q_def b_def c_def a_def)
  ultimately show ?thesis by (simp add: X_def F_def)
qed

lemma ema_contracts:
  assumes "rounds_within u h fl" "0 \<le> u" "u \<le> 1 / 8" "0 \<le> h" "h \<le> 1 / 8"
  shows "\<bar>ema fl v f - v\<bar> \<le> 0.8 * \<bar>f - v\<bar> + (7 * u + 2 * h) * (\<bar>v\<bar> + \<bar>f\<bar>) + 4 * h"
proof -
  have "\<bar>(0.2 * v + 0.8 * f) - v\<bar> = 0.8 * \<bar>f - v\<bar>"
  proof -
    have "(0.2 * v + 0.8 * f) - v = 0.8 * (f - v)" by (simp add: algebra_simps)
    then have "\<bar>(0.2 * v + 0.8 * f) - v\<bar> = \<bar>0.8\<bar> * \<bar>f - v\<bar>"
      by (simp only: abs_mult)
    then show ?thesis by simp
  qed
  with ema_error [OF assms, of v f] show ?thesis by linarith
qed

lemma ema_exact: "ema (\<lambda>y. y) v f - v = 0.8 * (f - v)"
  by (simp add: ema_def algebra_simps)

lemma read_accel_fl_eq:
  "read_accel_fl fl (x, y, z) w =
     ((ema fl x (fx w), ema fl y (fy w), ema fl z (fz w)),
      w\<lparr>fx := ema fl x (fx w), fy := ema fl y (fy w), fz := ema fl z (fz w)\<rparr>)"
  by (simp add: read_accel_fl_def Let_def)

lemma fx_read_accel_fl: "fx (snd (read_accel_fl fl (x, y, z) w)) = ema fl x (fx w)"
  by (simp add: read_accel_fl_eq)

lemma ema_exact_value: "ema (\<lambda>r. r) v f = 0.2 * v + 0.8 * f"
  by (simp add: ema_def algebra_simps)

lemma read_accel_fl_exact: "read_accel_fl (\<lambda>r. r) (x, y, z) w = read_accel (x, y, z) w"
  by (simp add: read_accel_fl_eq read_accel_eq ema_exact_value)

text \<open>
  Claim C7, as amended. Each call of the filter replaces every filtered axis value by
  \<open>0.2 * raw + 0.8 * previous\<close> evaluated in floating point, every operation rounded,
  returns the new values and keeps them in the state for the next call. For a constant
  raw value \<open>v\<close>, one update brings the distance to \<open>v\<close> to at most \<open>0.8\<close> times the
  distance before plus a rounding error of at most
  \<open>(7 * u + 2 * h) * (\<bar>v\<bar> + \<bar>previous\<bar>) + 4 * h\<close>, for every rounding with relative error
  \<open>u\<close> and underflow error \<open>h\<close>, each at most \<open>1 / 8\<close>; for binary64, \<open>u = 2 ^ - 53\<close> and
  \<open>h = 2 ^ - 1075\<close>. In exact arithmetic the factor is exactly \<open>0.8\<close> and the filtered
  values converge to the raw ones.
\<close>

theorem read_accel_rounded:
  "read_accel_fl fl (x, y, z) w =
     ((ema fl x (fx w), ema fl y (fy w), ema fl z (fz w)),
      w\<lparr>fx := ema fl x (fx w), fy := ema fl y (fy w), fz := ema fl z (fz w)\<rparr>)
   \<and> ema fl v f = fl (fl (fl 0.2 * v) + fl (fl (1 - fl 0.2) * f))
   \<and> fx (snd (read_accel_fl fl (x', y', z') (snd (read_accel_fl fl (x, y, z) w))))
        = ema fl x' (ema fl x (fx w))
   \<and> (rounds_within u h fl \<and> 0 \<le> u \<and> u \<le> 1 / 8 \<and> 0 \<le> h \<and> h \<le> 1 / 8 \<longrightarrow>
        \<bar>ema fl v f - v\<bar> \<le> 0.8 * \<bar>f - v\<bar> + (7 * u + 2 * h) * (\<bar>v\<bar> + \<bar>f\<bar>) + 4 * h)
   \<and> rounds_within (2 powi (- 53)) (2 powi (- 1075)) binary64
   \<and> read_accel_fl (\<lambda>r. r) (x, y, z) w = read_accel (x, y, z) w
   \<and> ema (\<lambda>r. r) v f = 0.2 * v + 0.8 * f
   \<and> \<bar>ema (\<lambda>r. r) v f - v\<bar> = 0.8 * \<bar>f - v\<bar>
   \<and> (\<lambda>k. fx (feed_accel (x, y, z) k w)) \<longlonglongrightarrow> x
   \<and> (\<lambda>k. fy (feed_accel (x, y, z) k w)) \<longlonglongrightarrow> y
   \<and> (\<lambda>k. fz (feed_accel (x, y, z) k w)) \<longlonglongrightarrow> z"
proof -
  have a: "read_accel_fl fl (x, y, z) w =
     ((ema fl x (fx w), ema fl y (fy w), ema fl z (fz w)),
      w\<lparr>fx := ema fl x (fx w), fy := ema fl y (fy w), fz := ema fl z (fz w)\<rparr>)"
    by (rule read_accel_fl_eq)
  have b: "ema fl v f = fl (fl (fl 0.2 * v) + fl (fl (1 - fl 0.2) * f))"
    by (simp add: ema_def)
  have c: "fx (snd (read_accel_fl fl (x', y', z') (snd (read_accel_fl fl (x, y, z) w))))
        = ema fl x' (ema fl x (fx w))"
    by (simp add: read_accel_fl_eq)
  have d: "rounds_within u h fl \<and> 0 \<le> u \<and> u \<le> 1 / 8 \<and> 0 \<le> h \<and> h \<le> 1 / 8 \<longrightarrow>
        \<bar>ema fl v f - v\<bar> \<le> 0.8 * \<bar>f - v\<bar> + (7 * u + 2 * h) * (\<bar>v\<bar> + \<bar>f\<bar>) + 4 * h"
    using ema_contracts [of u h fl v f] by blast
  have e: "rounds_within (2 powi (- 53)) (2 powi (- 1075)) binary64"
    by (rule binary64_rounds)
  have f: "read_accel_fl (\<lambda>r. r) (x, y, z) w = read_accel (x, y, z) w"
    by (rule read_accel_fl_exact)
  have g: "ema (\<lambda>r. r) v f = 0.2 * v + 0.8 * f"
    by (rule ema_exact_value)
  have "\<bar>ema (\<lambda>r. r) v f - v\<bar> = \<bar>0.8 * (f - v)\<bar>"
    by (simp only: ema_exact)
  also have "\<dots> = \<bar>0.8\<bar> * \<bar>f - v\<bar>" by (rule abs_mult)
  finally have i: "\<bar>ema (\<lambda>r. r) v f - v\<bar> = 0.8 * \<bar>f - v\<bar>"
    by simp
  have j: "(\<lambda>k. fx (feed_accel (x, y, z) k w)) \<longlonglongrightarrow> x"
    "(\<lambda>k. fy (feed_accel (x, y, z) k w)) \<longlonglongrightarrow> y"
    "(\<lambda>k. fz (feed_accel (x, y, z) k w)) \<longlonglongrightarrow> z"
    by (rule geometric_tendsto [OF feed_accel_closed(1)], rule geometric_tendsto [OF feed_accel_closed(2)],
        rule geometric_tendsto [OF feed_accel_closed(3)])
  from a b c d e f g i j show ?thesis by (intro conjI)
qed

lemma powi_small: "(0::real) \<le> 2 powi (- 53)" "(2::real) powi (- 53) \<le> 1 / 8"
  "(0::real) \<le> 2 powi (- 1075)" "(2::real) powi (- 1075) \<le> 1 / 8"
proof -
  have e: "(2::real) powi (- 3) = 1 / 8" by (simp add: power_int_minus)
  show "(0::real) \<le> 2 powi (- 53)" "(0::real) \<le> 2 powi (- 1075)" by simp_all
  have "(2::real) powi (- 53) \<le> 2 powi (- 3)" by (intro power_int_increasing) simp_all
  then show "(2::real) powi (- 53) \<le> 1 / 8" by (simp only: e)
  have "(2::real) powi (- 1075) \<le> 2 powi (- 3)" by (intro power_int_increasing) simp_all
  then show "(2::real) powi (- 1075) \<le> 1 / 8" by (simp only: e)
qed

theorem read_accel_rounded_witness:
  "rounds_within (2 powi (- 53)) (2 powi (- 1075)) binary64
   \<and> \<bar>ema binary64 1 0 - 1\<bar>
        \<le> 0.8 * \<bar>0 - 1\<bar> + (7 * 2 powi (- 53) + 2 * 2 powi (- 1075)) * (\<bar>1\<bar> + \<bar>0\<bar>) + 4 * 2 powi (- 1075)"
proof -
  note main = read_accel_rounded [of binary64 0 0 0 start_world 1 0 0 0 0 "2 powi (- 53)" "2 powi (- 1075)"]
  from main have r: "rounds_within (2 powi (- 53)) (2 powi (- 1075)) binary64" by blast
  from main have "rounds_within (2 powi (- 53)) (2 powi (- 1075)) binary64
      \<and> 0 \<le> (2::real) powi (- 53) \<and> (2::real) powi (- 53) \<le> 1 / 8
      \<and> 0 \<le> (2::real) powi (- 1075) \<and> (2::real) powi (- 1075) \<le> 1 / 8 \<longrightarrow>
        \<bar>ema binary64 1 0 - 1\<bar>
        \<le> 0.8 * \<bar>0 - 1\<bar> + (7 * 2 powi (- 53) + 2 * 2 powi (- 1075)) * (\<bar>1\<bar> + \<bar>0\<bar>) + 4 * 2 powi (- 1075)"
    by blast
  with r powi_small show ?thesis by blast
qed

text \<open>
  Claim C7 as the specification states it fails in binary64: with the filtered value and
  the raw value both at \<open>7\<close>, the update returns \<open>7 + 2 ^ - 50\<close>, so the distance grows
  from \<open>0\<close> instead of shrinking by the factor \<open>0.8\<close>; and with the raw value at \<open>1\<close> the
  filtered value \<open>1 - 2 ^ - 52\<close> is returned unchanged, so the output stops short of the
  raw value.
\<close>

theorem read_accel_exact_counterexample:
  "fx (snd (read_accel_fl binary64 (7, 0, 0) (start_world\<lparr>fx := 7\<rparr>))) = 7 + 1 / 2 ^ 50
   \<and> \<not> \<bar>fx (snd (read_accel_fl binary64 (7, 0, 0) (start_world\<lparr>fx := 7\<rparr>))) - 7\<bar>
        = 0.8 * \<bar>fx (start_world\<lparr>fx := 7\<rparr>) - 7\<bar>
   \<and> \<not> \<bar>fx (snd (read_accel_fl binary64 (7, 0, 0) (start_world\<lparr>fx := 7\<rparr>))) - 7\<bar>
        \<le> \<bar>fx (start_world\<lparr>fx := 7\<rparr>) - 7\<bar>
   \<and> fx (snd (read_accel_fl binary64 (1, 0, 0) (start_world\<lparr>fx := 1 - 1 / 2 ^ 52\<rparr>))) = 1 - 1 / 2 ^ 52"
proof -
  have e1: "ema binary64 7 7 = 7 + 1 / 2 ^ 50" by code_simp
  have e2: "ema binary64 1 (1 - 1 / 2 ^ 52) = 1 - 1 / 2 ^ 52" by code_simp
  have s1: "fx (start_world\<lparr>fx := 7\<rparr>) = 7"
    and s2: "fx (start_world\<lparr>fx := 1 - 1 / 2 ^ 52\<rparr>) = 1 - 1 / 2 ^ 52"
    by simp_all
  have a: "fx (snd (read_accel_fl binary64 (7, 0, 0) (start_world\<lparr>fx := 7\<rparr>))) = 7 + 1 / 2 ^ 50"
    by (simp only: fx_read_accel_fl s1 e1)
  have b: "fx (snd (read_accel_fl binary64 (1, 0, 0) (start_world\<lparr>fx := 1 - 1 / 2 ^ 52\<rparr>))) = 1 - 1 / 2 ^ 52"
    by (simp only: fx_read_accel_fl s2 e2)
  have c: "\<not> \<bar>(7 + 1 / 2 ^ 50) - 7\<bar> = 0.8 * \<bar>fx (start_world\<lparr>fx := 7\<rparr>) - (7::real)\<bar>"
    "\<not> \<bar>(7 + 1 / 2 ^ 50) - 7\<bar> \<le> \<bar>fx (start_world\<lparr>fx := 7\<rparr>) - (7::real)\<bar>"
    by simp_all
  from a b c show ?thesis by (simp only: a b) simp
qed

subsection \<open>Time limits\<close>





subsection \<open>Sequence generation\<close>

lemma random_choice_mem: "xs \<noteq> [] \<Longrightarrow> fst (random_choice rnd xs w) \<in> set xs"
  by (simp add: random_choice_def)

lemma choices_Suc:
  "fst (choices rnd (Suc n) w) =
     fst (random_choice rnd ACTIONS w) # fst (choices rnd n (snd (random_choice rnd ACTIONS w)))"
  by (simp add: case_prod_beta)

lemma choices_length: "length (fst (choices rnd n w)) = n"
proof (induction n arbitrary: w)
  case 0
  show ?case by simp
next
  case (Suc n)
  show ?case by (simp only: choices_Suc length_Cons Suc.IH)
qed

lemma choices_set: "set (fst (choices rnd n w)) \<subseteq> set ACTIONS"
proof (induction n arbitrary: w)
  case 0
  show ?case by simp
next
  case (Suc n)
  have "ACTIONS \<noteq> []" by (simp add: ACTIONS_def)
  then have "fst (random_choice rnd ACTIONS w) \<in> set ACTIONS"
    by (rule random_choice_mem)
  with Suc.IH [of "snd (random_choice rnd ACTIONS w)"] show ?case
    by (simp only: choices_Suc set_simps insert_subset conj_commute)
qed

text \<open>
  Claim C8. Whatever the random source draws, \<open>generate_sequence\<close> returns a list of
  \<open>level + 1\<close> elements (for a level with \<open>level + 1\<close> not negative; the empty list
  otherwise), all of them among the five actions PAW, TAIL_LEFT, TAIL_RIGHT, SHAKE and
  FLIP.
\<close>

theorem generate_sequence_shape:
  "length (fst (generate_sequence rnd level w)) = nat (level + 1)
   \<and> (0 \<le> level + 1 \<longrightarrow> int (length (fst (generate_sequence rnd level w))) = level + 1)
   \<and> set (fst (generate_sequence rnd level w)) \<subseteq> {''PAW'', ''TAIL_LEFT'', ''TAIL_RIGHT'', ''SHAKE'', ''FLIP''}
   \<and> length ACTIONS = 5 \<and> distinct ACTIONS"
proof -
  have "set (fst (generate_sequence rnd level w)) \<subseteq> set ACTIONS"
    by (simp add: generate_sequence_def choices_set)
  moreover have "set ACTIONS = {''PAW'', ''TAIL_LEFT'', ''TAIL_RIGHT'', ''SHAKE'', ''FLIP''}"
    by (simp add: ACTIONS_def)
  moreover have "length ACTIONS = 5 \<and> distinct ACTIONS"
    by (simp add: ACTIONS_def)
  ultimately show ?thesis
    by (simp add: generate_sequence_def choices_length)
qed

theorem generate_sequence_shape_witness:
  "(0::int) \<le> 2 + 1
   \<and> int (length (fst (generate_sequence (\<lambda>n. 7 * n + 3) 2
        \<lparr>encoder_value = 0, last_state = (True, True), fx = 0, fy = 0, fz = 0, tick = 0, draws = 0\<rparr>))) = 2 + 1
   \<and> fst (generate_sequence (\<lambda>n. 7 * n + 3) 2
        \<lparr>encoder_value = 0, last_state = (True, True), fx = 0, fy = 0, fz = 0, tick = 0, draws = 0\<rparr>)
      = [''SHAKE'', ''PAW'', ''TAIL_RIGHT'']"
proof -
  have h: "(0::int) \<le> 2 + 1" by simp
  have "0 \<le> (2::int) + 1 \<longrightarrow> int (length (fst (generate_sequence (\<lambda>n. 7 * n + 3) 2
        \<lparr>encoder_value = 0, last_state = (True, True), fx = 0, fy = 0, fz = 0, tick = 0, draws = 0\<rparr>))) = 2 + 1"
    by (rule generate_sequence_shape [THEN conjunct2, THEN conjunct1])
  with h have "int (length (fst (generate_sequence (\<lambda>n. 7 * n + 3) 2
        \<lparr>encoder_value = 0, last_state = (True, True), fx = 0, fy = 0, fz = 0, tick = 0, draws = 0\<rparr>))) = 2 + 1"
    by (rule rev_mp)
  moreover have "fst (generate_sequence (\<lambda>n. 7 * n + 3) 2
        \<lparr>encoder_value = 0, last_state = (True, True), fx = 0, fy = 0, fz = 0, tick = 0, draws = 0\<rparr>)
      = [''SHAKE'', ''PAW'', ''TAIL_RIGHT'']"
    by code_simp
  ultimately show ?thesis using h by (intro conjI)
qed

subsection \<open>High scores\<close>

text \<open>
  Claim C9. When the store cannot be opened, or the parser raises on its text,
  \<open>load_highscores\<close> returns the three entries (AAA, 0), (BBB, 0), (CCC, 0). When the
  text parses, it returns the parsed list. In every case it returns normally: no error
  reaches the caller.
\<close>

theorem load_highscores_defaults:
  "((file = None \<or> (\<exists>text e. file = Some text \<and> json_load text = Inl e)) \<longrightarrow>
      load_highscores json_load file =
        Inr [\<lparr>entry_name = ''AAA'', entry_score = 0\<rparr>,
             \<lparr>entry_name = ''BBB'', entry_score = 0\<rparr>,
             \<lparr>entry_name = ''CCC'', entry_score = 0\<rparr>])
   \<and> (\<forall>scores. file = Some text \<and> json_load text = Inr scores \<longrightarrow>
        load_highscores json_load file = Inr scores)
   \<and> (\<exists>scores. load_highscores json_load file = Inr scores)"
proof -
  have a: "(file = None \<or> (\<exists>text e. file = Some text \<and> json_load text = Inl e)) \<longrightarrow>
      load_highscores json_load file =
        Inr [\<lparr>entry_name = ''AAA'', entry_score = 0\<rparr>,
             \<lparr>entry_name = ''BBB'', entry_score = 0\<rparr>,
             \<lparr>entry_name = ''CCC'', entry_score = 0\<rparr>]"
    by (auto simp: load_highscores_def read_store_def DEFAULT_SCORES_def)
  have b: "\<forall>scores. file = Some text \<and> json_load text = Inr scores \<longrightarrow>
        load_highscores json_load file = Inr scores"
    by (simp add: load_highscores_def read_store_def)
  have c: "\<exists>scores. load_highscores json_load file = Inr scores"
    by (simp add: load_highscores_def split: sum.splits)
  from a b c show ?thesis by (intro conjI)
qed

theorem load_highscores_defaults_witness:
  "load_highscores (\<lambda>t. if t = ''[]'' then Inr [] else Inl ValueError) None
     = Inr [\<lparr>entry_name = ''AAA'', entry_score = 0\<rparr>, \<lparr>entry_name = ''BBB'', entry_score = 0\<rparr>,
            \<lparr>entry_name = ''CCC'', entry_score = 0\<rparr>]
   \<and> load_highscores (\<lambda>t. if t = ''[]'' then Inr [] else Inl ValueError) (Some ''{bad'')
     = Inr [\<lparr>entry_name = ''AAA'', entry_score = 0\<rparr>, \<lparr>entry_name = ''BBB'', entry_score = 0\<rparr>,
            \<lparr>entry_name = ''CCC'', entry_score = 0\<rparr>]
   \<and> load_highscores (\<lambda>t. if t = ''[]'' then Inr [] else Inl ValueError) (Some ''[]'') = Inr []"
proof -
  let ?j = "\<lambda>t. if t = ''[]'' then Inr [] else Inl ValueError :: py_error + entry list"
  let ?d = "[\<lparr>entry_name = ''AAA'', entry_score = 0\<rparr>, \<lparr>entry_name = ''BBB'', entry_score = 0\<rparr>,
            \<lparr>entry_name = ''CCC'', entry_score = 0\<rparr>]"
  have "load_highscores ?j None = Inr ?d"
    using load_highscores_defaults [of None ?j] by simp
  moreover have "load_highscores ?j (Some ''{bad'') = Inr ?d"
    using load_highscores_defaults [of "Some ''{bad''" ?j] by simp
  moreover have "load_highscores ?j (Some ''[]'') = Inr []"
    using load_highscores_defaults [of "Some ''[]''" ?j "''[]''"] by simp
  ultimately show ?thesis by (intro conjI)
qed

lemma qualifies_nonempty:
  "scores \<noteq> [] \<Longrightarrow> qualifies score scores = Inr (score > entry_score (last scores))"
  by (cases scores) (simp_all add: qualifies_def)

lemma last_is_Min:
  fixes xs :: "int list"
  assumes "xs \<noteq> []" "sorted_wrt (\<ge>) xs"
  shows "last xs = Min (set xs)"
proof -
  have "last xs \<in> set xs" using assms(1) by simp
  moreover have "\<forall>x \<in> set xs. last xs \<le> x"
    using assms
  proof (induction xs)
    case Nil
    then show ?case by simp
  next
    case (Cons a xs)
    then show ?case by (cases "xs = []") auto
  qed
  ultimately show ?thesis
    by (intro Min_eqI [symmetric]) auto
qed

lemma qualifies_full_store:
  assumes "length scores = 3" "sorted_wrt (\<ge>) (map entry_score scores)"
  shows "qualifies score scores = Inr (qualifies_spec score scores)"
proof -
  from assms(1) have ne: "scores \<noteq> []" by auto
  have "last (map entry_score scores) = Min (set (map entry_score scores))"
    using ne assms(2) by (intro last_is_Min) simp_all
  moreover from assms(1) have "lowest_held scores = Min (set (map entry_score scores))"
    by (simp add: lowest_held_def)
  ultimately show ?thesis
    using ne by (simp add: qualifies_nonempty qualifies_spec_def last_map)
qed

text \<open>
  Claim C4. The rule of the specification and the test of \<open>end_screen\<close> agree on a store
  of three entries in descending order, as in 50 against 100, 80, 60. They part on every
  other store, because the test looks at the last entry only. Against the single entry
  (AAA, 100) a score of 50 is in the top three by the rule, yet the test fails: no name is
  asked for and nothing is saved. On an empty store the test raises \<open>IndexError\<close>. On the
  unsorted store 10, 20, 90 a score of 50 beats two entries and is turned away.
\<close>

theorem qualifies_short_store:
  "qualifies 50 [\<lparr>entry_name = ''AAA'', entry_score = 100\<rparr>] = Inr False
   \<and> qualifies_spec 50 [\<lparr>entry_name = ''AAA'', entry_score = 100\<rparr>]
   \<and> update_highscores ''NEW'' 50 [\<lparr>entry_name = ''AAA'', entry_score = 100\<rparr>]
       = Inr ([\<lparr>entry_name = ''AAA'', entry_score = 100\<rparr>], None)
   \<and> qualifies 50 [] = Inl IndexError
   \<and> qualifies_spec 50 []
   \<and> qualifies 50 [\<lparr>entry_name = ''X'', entry_score = 10\<rparr>, \<lparr>entry_name = ''Y'', entry_score = 20\<rparr>,
        \<lparr>entry_name = ''Z'', entry_score = 90\<rparr>] = Inr False
   \<and> qualifies_spec 50 [\<lparr>entry_name = ''X'', entry_score = 10\<rparr>, \<lparr>entry_name = ''Y'', entry_score = 20\<rparr>,
        \<lparr>entry_name = ''Z'', entry_score = 90\<rparr>]
   \<and> qualifies 50 [\<lparr>entry_name = ''A'', entry_score = 100\<rparr>, \<lparr>entry_name = ''B'', entry_score = 80\<rparr>,
        \<lparr>entry_name = ''C'', entry_score = 60\<rparr>] = Inr False
   \<and> \<not> qualifies_spec 50 [\<lparr>entry_name = ''A'', entry_score = 100\<rparr>, \<lparr>entry_name = ''B'', entry_score = 80\<rparr>,
        \<lparr>entry_name = ''C'', entry_score = 60\<rparr>]"
  by (simp add: qualifies_def qualifies_spec_def lowest_held_def update_highscores_def eval_nat_numeral)

lemma sorted_reverse_mset: "mset (sorted_reverse key xs) = mset xs"
  by (simp add: sorted_reverse_def)

lemma sorted_reverse_desc: "sorted_wrt (\<ge>) (map key (sorted_reverse key xs))"
proof -
  have "sorted (map (\<lambda>x. - key x) (sorted_reverse key xs))"
    by (simp add: sorted_reverse_def)
  then have "sorted_wrt (\<le>) (map uminus (map key (sorted_reverse key xs)))"
    by (simp add: comp_def)
  then show ?thesis
    by (simp add: sorted_wrt_map)
qed

lemma sorted_reverse_stable:
  "filter (\<lambda>x. key x = k) (sorted_reverse key xs) = filter (\<lambda>x. key x = k) xs"
proof -
  have "filter (\<lambda>x. - key x = - k) (sort_key (\<lambda>x. - key x) xs) = filter (\<lambda>x. - key x = - k) xs"
    by (rule sort_key_stable)
  then show ?thesis by (simp add: sorted_reverse_def)
qed

text \<open>
  Claim C5. \<open>insert_score\<close> appends the new entry, sorts by descending score and keeps the
  first three entries: the result has at most three entries, the sorted list is a
  permutation of the appended one, in descending order of score, and entries of equal
  score keep the order they had in the appended list, where the new entry is last.
  Inserting (NEW, 70) into (A, 100), (B, 80), (C, 60) gives (A, 100), (B, 80), (NEW, 70).
\<close>

theorem insert_score_top3:
  "insert_score name score scores =
     take 3 (sorted_reverse entry_score (scores @ [\<lparr>entry_name = name, entry_score = score\<rparr>]))
   \<and> length (insert_score name score scores) \<le> 3
   \<and> mset (sorted_reverse entry_score (scores @ [\<lparr>entry_name = name, entry_score = score\<rparr>]))
       = mset (scores @ [\<lparr>entry_name = name, entry_score = score\<rparr>])
   \<and> sorted_wrt (\<ge>) (map entry_score (sorted_reverse entry_score (scores @ [\<lparr>entry_name = name, entry_score = score\<rparr>])))
   \<and> filter (\<lambda>e. entry_score e = k) (sorted_reverse entry_score (scores @ [\<lparr>entry_name = name, entry_score = score\<rparr>]))
       = filter (\<lambda>e. entry_score e = k) (scores @ [\<lparr>entry_name = name, entry_score = score\<rparr>])
   \<and> sorted_wrt (\<ge>) (map entry_score (insert_score name score scores))
   \<and> insert_score ''NEW'' 70 [\<lparr>entry_name = ''A'', entry_score = 100\<rparr>, \<lparr>entry_name = ''B'', entry_score = 80\<rparr>,
        \<lparr>entry_name = ''C'', entry_score = 60\<rparr>]
      = [\<lparr>entry_name = ''A'', entry_score = 100\<rparr>, \<lparr>entry_name = ''B'', entry_score = 80\<rparr>,
         \<lparr>entry_name = ''NEW'', entry_score = 70\<rparr>]
   \<and> update_highscores ''NEW'' 70 [\<lparr>entry_name = ''A'', entry_score = 100\<rparr>, \<lparr>entry_name = ''B'', entry_score = 80\<rparr>,
        \<lparr>entry_name = ''C'', entry_score = 60\<rparr>]
      = Inr ([\<lparr>entry_name = ''A'', entry_score = 100\<rparr>, \<lparr>entry_name = ''B'', entry_score = 80\<rparr>,
         \<lparr>entry_name = ''NEW'', entry_score = 70\<rparr>], Some [\<lparr>entry_name = ''A'', entry_score = 100\<rparr>, \<lparr>entry_name = ''B'', entry_score = 80\<rparr>,
         \<lparr>entry_name = ''NEW'', entry_score = 70\<rparr>])"
proof -
  let ?new = "\<lparr>entry_name = name, entry_score = score\<rparr>"
  let ?full = "sorted_reverse entry_score (scores @ [?new])"
  have a: "insert_score name score scores = take 3 ?full" by (simp add: insert_score_def)
  have b: "length (insert_score name score scores) \<le> 3" by (simp add: insert_score_def)
  have c: "mset ?full = mset (scores @ [?new])" by (rule sorted_reverse_mset)
  have d: "sorted_wrt (\<ge>) (map entry_score ?full)" by (rule sorted_reverse_desc)
  have e: "filter (\<lambda>e. entry_score e = k) ?full = filter (\<lambda>e. entry_score e = k) (scores @ [?new])"
    by (rule sorted_reverse_stable)
  have f: "sorted_wrt (\<ge>) (map entry_score (insert_score name score scores))"
    unfolding a take_map [symmetric] using d by (rule sorted_wrt_take)
  have g: "insert_score ''NEW'' 70 [\<lparr>entry_name = ''A'', entry_score = 100\<rparr>, \<lparr>entry_name = ''B'', entry_score = 80\<rparr>,
        \<lparr>entry_name = ''C'', entry_score = 60\<rparr>]
      = [\<lparr>entry_name = ''A'', entry_score = 100\<rparr>, \<lparr>entry_name = ''B'', entry_score = 80\<rparr>,
         \<lparr>entry_name = ''NEW'', entry_score = 70\<rparr>]"
    by (simp add: insert_score_def sorted_reverse_def)
  have h: "update_highscores ''NEW'' 70 [\<lparr>entry_name = ''A'', entry_score = 100\<rparr>, \<lparr>entry_name = ''B'', entry_score = 80\<rparr>,
        \<lparr>entry_name = ''C'', entry_score = 60\<rparr>]
      = Inr ([\<lparr>entry_name = ''A'', entry_score = 100\<rparr>, \<lparr>entry_name = ''B'', entry_score = 80\<rparr>,
         \<lparr>entry_name = ''NEW'', entry_score = 70\<rparr>], Some [\<lparr>entry_name = ''A'', entry_score = 100\<rparr>, \<lparr>entry_name = ''B'', entry_score = 80\<rparr>,
         \<lparr>entry_name = ''NEW'', entry_score = 70\<rparr>])"
    by (simp add: update_highscores_def qualifies_def g Let_def)
  from a b c d e f g h show ?thesis by (intro conjI)
qed

theorem insert_score_top3_witness:
  "insert_score ''NEW'' 80 [\<lparr>entry_name = ''A'', entry_score = 100\<rparr>, \<lparr>entry_name = ''B'', entry_score = 80\<rparr>,
        \<lparr>entry_name = ''C'', entry_score = 60\<rparr>]
      = [\<lparr>entry_name = ''A'', entry_score = 100\<rparr>, \<lparr>entry_name = ''B'', entry_score = 80\<rparr>,
         \<lparr>entry_name = ''NEW'', entry_score = 80\<rparr>]
   \<and> length (insert_score ''NEW'' 80 [\<lparr>entry_name = ''A'', entry_score = 100\<rparr>, \<lparr>entry_name = ''B'', entry_score = 80\<rparr>,
        \<lparr>entry_name = ''C'', entry_score = 60\<rparr>]) \<le> 3"
proof -
  let ?s = "[\<lparr>entry_name = ''A'', entry_score = 100\<rparr>, \<lparr>entry_name = ''B'', entry_score = 80\<rparr>,
        \<lparr>entry_name = ''C'', entry_score = 60\<rparr>]"
  have "length (insert_score ''NEW'' 80 ?s) \<le> 3"
    by (rule insert_score_top3 [THEN conjunct2, THEN conjunct1])
  moreover have "insert_score ''NEW'' 80 ?s = [\<lparr>entry_name = ''A'', entry_score = 100\<rparr>, \<lparr>entry_name = ''B'', entry_score = 80\<rparr>,
         \<lparr>entry_name = ''NEW'', entry_score = 80\<rparr>]"
    by (simp add: insert_score_def sorted_reverse_def)
  ultimately show ?thesis by (intro conjI)
qed

subsection \<open>Gesture recognition\<close>

lemma tick_update_encoder: "tick (update_encoder p w) = tick w"
  by (simp add: update_encoder_def Let_def)

lemma read_accel_fields:
  "tick (snd (read_accel raw w)) = tick w"
  "encoder_value (snd (read_accel raw w)) = encoder_value w"
  "fst (read_accel raw w) = (fx (snd (read_accel raw w)), fy (snd (read_accel raw w)), fz (snd (read_accel raw w)))"
  by (cases raw; simp add: read_accel_def Let_def)+

lemma tick_poll: "tick (poll env w) = tick w + 1"
  by (simp add: poll_def read_accel_fields tick_update_encoder)

lemma tick_polls: "tick (polls env k w) = tick w + k"
  by (induction k arbitrary: w) (simp_all add: tick_poll)

lemma detect_loop_step:
  "detect_loop env action start time_limit w =
     (if monotonic (env (tick w)) - start < time_limit then
        (if gesture_seen action (env (tick w)) (poll env w) then Some (True, poll env w)
         else detect_loop env action start time_limit (poll env w))
      else Some (False, w\<lparr>tick := tick w + 1\<rparr>))"
  by (subst detect_loop.simps)
     (simp add: Let_def poll_def gesture_seen_def read_accel_fields)

lemma detect_loop_success:
  assumes "\<forall>i<n. monotonic (env (tick w + i)) - start < time_limit
             \<and> \<not> gesture_seen action (env (tick w + i)) (polls env (Suc i) w)"
    and "monotonic (env (tick w + n)) - start < time_limit"
    and "gesture_seen action (env (tick w + n)) (polls env (Suc n) w)"
  shows "detect_loop env action start time_limit w = Some (True, polls env (Suc n) w)"
  using assms
proof (induction n arbitrary: w)
  case 0
  then show ?case by (subst detect_loop_step) simp
next
  case (Suc n)
  from Suc.prems(1) have first: "monotonic (env (tick w)) - start < time_limit"
    "\<not> gesture_seen action (env (tick w)) (poll env w)"
    by (auto dest: spec [of _ 0])
  have rest: "\<forall>i<n. monotonic (env (tick (poll env w) + i)) - start < time_limit
             \<and> \<not> gesture_seen action (env (tick (poll env w) + i)) (polls env (Suc i) (poll env w))"
  proof (intro allI impI)
    fix i assume "i < n"
    then have "Suc i < Suc n" by simp
    with Suc.prems(1) show "monotonic (env (tick (poll env w) + i)) - start < time_limit
             \<and> \<not> gesture_seen action (env (tick (poll env w) + i)) (polls env (Suc i) (poll env w))"
      by (auto simp: tick_poll dest!: spec [of _ "Suc i"])
  qed
  have "detect_loop env action start time_limit (poll env w) = Some (True, polls env (Suc n) (poll env w))"
    using rest Suc.prems(2,3) by (intro Suc.IH) (simp_all add: tick_poll)
  then show ?case using first by (subst detect_loop_step) simp
qed

lemma detect_loop_timeout:
  assumes "\<forall>i<n. monotonic (env (tick w + i)) - start < time_limit
             \<and> \<not> gesture_seen action (env (tick w + i)) (polls env (Suc i) w)"
    and "\<not> monotonic (env (tick w + n)) - start < time_limit"
  shows "detect_loop env action start time_limit w
           = Some (False, (polls env n w)\<lparr>tick := tick w + n + 1\<rparr>)"
  using assms
proof (induction n arbitrary: w)
  case 0
  then show ?case by (subst detect_loop_step) simp
next
  case (Suc n)
  from Suc.prems(1) have first: "monotonic (env (tick w)) - start < time_limit"
    "\<not> gesture_seen action (env (tick w)) (poll env w)"
    by (auto dest: spec [of _ 0])
  have rest: "\<forall>i<n. monotonic (env (tick (poll env w) + i)) - start < time_limit
             \<and> \<not> gesture_seen action (env (tick (poll env w) + i)) (polls env (Suc i) (poll env w))"
  proof (intro allI impI)
    fix i assume "i < n"
    then have "Suc i < Suc n" by simp
    with Suc.prems(1) show "monotonic (env (tick (poll env w) + i)) - start < time_limit
             \<and> \<not> gesture_seen action (env (tick (poll env w) + i)) (polls env (Suc i) (poll env w))"
      by (auto simp: tick_poll dest!: spec [of _ "Suc i"])
  qed
  have "detect_loop env action start time_limit (poll env w)
          = Some (False, (polls env n (poll env w))\<lparr>tick := tick (poll env w) + n + 1\<rparr>)"
    using rest Suc.prems(2) by (intro Suc.IH) (simp_all add: tick_poll)
  then show ?case using first by (subst detect_loop_step) (simp add: tick_poll)
qed

lemma detect_action_loop:
  "detect_action env action time_limit w
     = detect_loop env action (monotonic (env (tick w))) time_limit (attempt_start w)"
  by (simp add: detect_action_def attempt_start_def Let_def)

lemma tick_attempt_start: "tick (attempt_start w) = tick w + 1"
  by (simp add: attempt_start_def)

lemma detect_action_success:
  assumes "\<forall>i<n. in_time env time_limit w i \<and> \<not> seen_at env action w i"
    and "in_time env time_limit w n" and "seen_at env action w n"
  shows "detect_action env action time_limit w = Some (True, polls env (Suc n) (attempt_start w))"
  unfolding detect_action_loop
  using assms
  by (intro detect_loop_success) (simp_all add: in_time_def seen_at_def tick_attempt_start)

lemma detect_action_timeout:
  assumes "\<forall>i<n. in_time env time_limit w i \<and> \<not> seen_at env action w i"
    and "\<not> in_time env time_limit w n"
  shows "detect_action env action time_limit w
           = Some (False, (polls env n (attempt_start w))\<lparr>tick := tick w + n + 2\<rparr>)"
proof -
  have "detect_loop env action (monotonic (env (tick w))) time_limit (attempt_start w)
          = Some (False, (polls env n (attempt_start w))\<lparr>tick := tick (attempt_start w) + n + 1\<rparr>)"
    using assms
    by (intro detect_loop_timeout) (simp_all add: in_time_def seen_at_def tick_attempt_start)
  then show ?thesis by (simp add: detect_action_loop tick_attempt_start)
qed

lemma detect_action_returns:
  assumes "\<not> in_time env time_limit w m"
  shows "\<exists>r. detect_action env action time_limit w = Some r"
proof -
  define P where "P k \<longleftrightarrow> \<not> in_time env time_limit w k \<or> seen_at env action w k" for k
  define n where "n = (LEAST k. P k)"
  have "P m" using assms by (simp add: P_def)
  then have Pn: "P n" unfolding n_def by (rule LeastI)
  have before: "\<forall>i<n. in_time env time_limit w i \<and> \<not> seen_at env action w i"
  proof (intro allI impI)
    fix i assume "i < n"
    then have "\<not> P i" unfolding n_def by (rule not_less_Least)
    then show "in_time env time_limit w i \<and> \<not> seen_at env action w i" by (simp add: P_def)
  qed
  show ?thesis
  proof (cases "in_time env time_limit w n")
    case True
    with Pn have "seen_at env action w n" by (simp add: P_def)
    from detect_action_success [OF before True this] show ?thesis by blast
  next
    case False
    from detect_action_timeout [OF before False] show ?thesis by blast
  qed
qed

lemma detect_action_returns_unbounded:
  assumes "\<forall>t. \<exists>m. t \<le> monotonic (env (tick w + 1 + m))"
  shows "\<exists>r. detect_action env action time_limit w = Some r"
proof -
  from assms obtain m where
    "monotonic (env (tick w)) + time_limit \<le> monotonic (env (tick w + 1 + m))"
    by blast
  then have "\<not> in_time env time_limit w m"
    by (simp add: in_time_def)
  then show ?thesis by (rule detect_action_returns)
qed

text \<open>
  The loop returns only through one of its two exits: while every pass is within the
  deadline and none sees the gesture, the call does not return. The clock, and nothing
  else, bounds the wait.
\<close>

lemma detect_loop_needs_exit:
  assumes "detect_loop env action start time_limit w = Some r"
  shows "\<exists>n. \<not> (monotonic (env (tick w + n)) - start < time_limit)
             \<or> gesture_seen action (env (tick w + n)) (polls env (Suc n) w)"
proof (rule detect_loop.raw_induct
    [where P = "\<lambda>env action start time_limit w r.
       \<exists>n. \<not> (monotonic (env (tick w + n)) - start < time_limit)
             \<or> gesture_seen action (env (tick w + n)) (polls env (Suc n) w)", OF _ assms])
  fix f :: "(nat \<Rightarrow> sample) \<Rightarrow> string \<Rightarrow> real \<Rightarrow> real \<Rightarrow> world \<Rightarrow> (bool \<times> world) option"
  fix env action start time_limit w r
  assume IH: "\<And>env action start time_limit w r. f env action start time_limit w = Some r \<Longrightarrow>
     \<exists>n. \<not> (monotonic (env (tick w + n)) - start < time_limit)
             \<or> gesture_seen action (env (tick w + n)) (polls env (Suc n) w)"
  assume body: "(let s = env (tick w); w0 = w\<lparr>tick := tick w + 1\<rparr>
      in if monotonic s - start < time_limit
         then let w1 = update_encoder (clk_value s, dt_value s) w0;
                  r = read_accel (acceleration s) w1; x = fst (fst r);
                  z = snd (snd (fst r)); w2 = snd r
              in if action = ''PAW'' \<and> \<not> sw_value s then Some (True, w2)
                 else if action = ''TAIL_LEFT'' \<and> encoder_value w2 < - 2 then Some (True, w2)
                 else if action = ''TAIL_RIGHT'' \<and> 2 < encoder_value w2 then Some (True, w2)
                 else if action = ''SHAKE'' \<and> 15 < \<bar>x\<bar> then Some (True, w2)
                 else if action = ''FLIP'' \<and> z < - 5 then Some (True, w2)
                 else f env action start time_limit w2
         else Some (False, w0)) = Some r"
  show "\<exists>n. \<not> (monotonic (env (tick w + n)) - start < time_limit)
             \<or> gesture_seen action (env (tick w + n)) (polls env (Suc n) w)"
  proof (cases "monotonic (env (tick w)) - start < time_limit \<and> \<not> gesture_seen action (env (tick w)) (poll env w)")
    case False
    then have "\<not> (monotonic (env (tick w + 0)) - start < time_limit)
             \<or> gesture_seen action (env (tick w + 0)) (polls env (Suc 0) w)" by auto
    then show ?thesis by blast
  next
    case True
    with body have "f env action start time_limit (poll env w) = Some r"
      by (simp add: Let_def poll_def gesture_seen_def read_accel_fields split: if_splits)
    from IH [OF this] obtain n where
      "\<not> (monotonic (env (tick (poll env w) + n)) - start < time_limit)
             \<or> gesture_seen action (env (tick (poll env w) + n)) (polls env (Suc n) (poll env w))"
      by blast
    then have "\<not> (monotonic (env (tick w + Suc n)) - start < time_limit)
             \<or> gesture_seen action (env (tick w + Suc n)) (polls env (Suc (Suc n)) w)"
      by (simp add: tick_poll)
    then show ?thesis by blast
  qed
qed

lemma detect_action_blocks:
  assumes "\<forall>n. in_time env time_limit w n \<and> \<not> seen_at env action w n"
  shows "detect_action env action time_limit w = None"
proof (rule ccontr)
  assume "detect_action env action time_limit w \<noteq> None"
  then obtain r where "detect_loop env action (monotonic (env (tick w))) time_limit (attempt_start w) = Some r"
    by (auto simp: detect_action_loop)
  from detect_loop_needs_exit [OF this] obtain n where
    "\<not> in_time env time_limit w n \<or> seen_at env action w n"
    by (auto simp: in_time_def seen_at_def tick_attempt_start)
  with assms show False by blast
qed

text \<open>
  Claim C2. \<open>detect_action\<close> starts every attempt with the encoder counter at \<open>0\<close>,
  whatever its value was. It returns success at the first pass of the loop that is
  within the deadline and in which the predicate of the gesture holds (PAW: button line
  low; TAIL_LEFT: counter below \<open>-2\<close>; TAIL_RIGHT: counter above \<open>2\<close>; SHAKE: absolute
  filtered x above \<open>15\<close>; FLIP: filtered z below \<open>-5\<close>), and failure at the first pass
  whose clock reading has reached the deadline when no earlier pass saw the gesture.
  As soon as some reading of the clock reaches the deadline, the call returns; so on a
  clock whose readings grow beyond every bound it returns for every gesture and every
  deadline, and never blocks for good.
\<close>

theorem detect_action_bounded:
  "detect_action env action time_limit w = detect_action env action time_limit (w\<lparr>encoder_value := 0\<rparr>)
   \<and> encoder_value (attempt_start w) = 0
   \<and> ((\<forall>i<n. in_time env time_limit w i \<and> \<not> seen_at env action w i)
        \<and> in_time env time_limit w n \<and> seen_at env action w n
       \<longrightarrow> detect_action env action time_limit w = Some (True, polls env (Suc n) (attempt_start w)))
   \<and> ((\<forall>i<n. in_time env time_limit w i \<and> \<not> seen_at env action w i)
        \<and> \<not> in_time env time_limit w n
       \<longrightarrow> detect_action env action time_limit w
             = Some (False, (polls env n (attempt_start w))\<lparr>tick := tick w + n + 2\<rparr>))
   \<and> ((\<exists>m. \<not> in_time env time_limit w m) \<longrightarrow> (\<exists>r. detect_action env action time_limit w = Some r))
   \<and> ((\<forall>t. \<exists>m. t \<le> monotonic (env (tick w + 1 + m)))
       \<longrightarrow> (\<forall>a limit. \<exists>r. detect_action env a limit w = Some r))
   \<and> gesture_seen ''PAW'' s v = (\<not> sw_value s)
   \<and> gesture_seen ''TAIL_LEFT'' s v = (encoder_value v < - 2)
   \<and> gesture_seen ''TAIL_RIGHT'' s v = (encoder_value v > 2)
   \<and> gesture_seen ''SHAKE'' s v = (\<bar>fx v\<bar> > 15)
   \<and> gesture_seen ''FLIP'' s v = (fz v < - 5)"
proof -
  have a: "detect_action env action time_limit w = detect_action env action time_limit (w\<lparr>encoder_value := 0\<rparr>)"
    by (simp add: detect_action_def)
  have b: "encoder_value (attempt_start w) = 0"
    by (simp add: attempt_start_def)
  have c: "(\<forall>i<n. in_time env time_limit w i \<and> \<not> seen_at env action w i)
        \<and> in_time env time_limit w n \<and> seen_at env action w n
       \<longrightarrow> detect_action env action time_limit w = Some (True, polls env (Suc n) (attempt_start w))"
    using detect_action_success [of n env time_limit w action] by blast
  have d: "(\<forall>i<n. in_time env time_limit w i \<and> \<not> seen_at env action w i)
        \<and> \<not> in_time env time_limit w n
       \<longrightarrow> detect_action env action time_limit w
             = Some (False, (polls env n (attempt_start w))\<lparr>tick := tick w + n + 2\<rparr>)"
    using detect_action_timeout [of n env time_limit w action] by blast
  have e: "(\<exists>m. \<not> in_time env time_limit w m) \<longrightarrow> (\<exists>r. detect_action env action time_limit w = Some r)"
    using detect_action_returns [of env time_limit w _ action] by blast
  have u: "(\<forall>t. \<exists>m. t \<le> monotonic (env (tick w + 1 + m)))
       \<longrightarrow> (\<forall>a limit. \<exists>r. detect_action env a limit w = Some r)"
    using detect_action_returns_unbounded [of env w] by blast
  have f: "gesture_seen ''PAW'' s v = (\<not> sw_value s)"
    "gesture_seen ''TAIL_LEFT'' s v = (encoder_value v < - 2)"
    "gesture_seen ''TAIL_RIGHT'' s v = (encoder_value v > 2)"
    "gesture_seen ''SHAKE'' s v = (\<bar>fx v\<bar> > 15)"
    "gesture_seen ''FLIP'' s v = (fz v < - 5)"
    by (simp_all add: gesture_seen_def)
  from a b c d e u f show ?thesis by (intro conjI)
qed

theorem detect_action_bounded_witness:
  "in_time (button_env (\<lambda>n. 3 \<le> n)) 2 start_world 0 \<and> \<not> seen_at (button_env (\<lambda>n. 3 \<le> n)) ''PAW'' start_world 0
   \<and> in_time (button_env (\<lambda>n. 3 \<le> n)) 2 start_world 1 \<and> \<not> seen_at (button_env (\<lambda>n. 3 \<le> n)) ''PAW'' start_world 1
   \<and> in_time (button_env (\<lambda>n. 3 \<le> n)) 2 start_world 2 \<and> seen_at (button_env (\<lambda>n. 3 \<le> n)) ''PAW'' start_world 2
   \<and> detect_action (button_env (\<lambda>n. 3 \<le> n)) ''PAW'' 2 start_world = Some (True, polls (button_env (\<lambda>n. 3 \<le> n)) 3 (attempt_start start_world))
   \<and> \<not> in_time (button_env (\<lambda>n. 3 \<le> n)) 1 start_world 1
   \<and> detect_action (button_env (\<lambda>n. 3 \<le> n)) ''FLIP'' 1 start_world
       = Some (False, (polls (button_env (\<lambda>n. 3 \<le> n)) 1 (attempt_start start_world))\<lparr>tick := 3\<rparr>)
   \<and> (\<exists>r. detect_action (button_env (\<lambda>n. 3 \<le> n)) ''SHAKE'' 7 start_world = Some r)
   \<and> (\<forall>t. \<exists>m. t \<le> monotonic (button_env (\<lambda>n. 3 \<le> n) (tick start_world + 1 + m)))
   \<and> (\<forall>a limit. \<exists>r. detect_action (button_env (\<lambda>n. 3 \<le> n)) a limit start_world = Some r)"
proof -
  have t: "tick start_world = 0" by (simp add: start_world_def)
  have it: "in_time (button_env (\<lambda>n. 3 \<le> n)) 2 start_world 0" "in_time (button_env (\<lambda>n. 3 \<le> n)) 2 start_world 1"
    "in_time (button_env (\<lambda>n. 3 \<le> n)) 2 start_world 2" "in_time (button_env (\<lambda>n. 3 \<le> n)) 1 start_world 0"
    "\<not> in_time (button_env (\<lambda>n. 3 \<le> n)) 1 start_world 1" "\<not> in_time (button_env (\<lambda>n. 3 \<le> n)) 7 start_world 20"
    by (simp_all add: in_time_def t button_env_def)
  have paw: "\<not> seen_at (button_env (\<lambda>n. 3 \<le> n)) ''PAW'' start_world 0" "\<not> seen_at (button_env (\<lambda>n. 3 \<le> n)) ''PAW'' start_world 1"
    "seen_at (button_env (\<lambda>n. 3 \<le> n)) ''PAW'' start_world 2"
    by (simp_all add: seen_at_def gesture_seen_def t button_env_def)
  have flip: "\<not> seen_at (button_env (\<lambda>n. 3 \<le> n)) ''FLIP'' start_world 0"
    by (simp add: seen_at_def gesture_seen_def poll_def read_accel_def update_encoder_def
        attempt_start_def start_world_def button_env_def Let_def)
  have h2: "\<forall>i<2. in_time (button_env (\<lambda>n. 3 \<le> n)) 2 start_world i \<and> \<not> seen_at (button_env (\<lambda>n. 3 \<le> n)) ''PAW'' start_world i"
    using it paw by (auto simp: less_Suc_eq numeral_2_eq_2)
  have h1: "\<forall>i<1. in_time (button_env (\<lambda>n. 3 \<le> n)) 1 start_world i \<and> \<not> seen_at (button_env (\<lambda>n. 3 \<le> n)) ''FLIP'' start_world i"
    using it flip by simp
  note main = detect_action_bounded [THEN conjunct2, THEN conjunct2]
  have "detect_action (button_env (\<lambda>n. 3 \<le> n)) ''PAW'' 2 start_world
          = Some (True, polls (button_env (\<lambda>n. 3 \<le> n)) (Suc 2) (attempt_start start_world))"
    using main [THEN conjunct1, of 2 "button_env (\<lambda>n. 3 \<le> n)" 2 start_world "''PAW''"] h2 it(3) paw(3) by blast
  then have A: "detect_action (button_env (\<lambda>n. 3 \<le> n)) ''PAW'' 2 start_world
          = Some (True, polls (button_env (\<lambda>n. 3 \<le> n)) 3 (attempt_start start_world))"
    by (simp only: eval_nat_numeral(3) [symmetric] numeral_3_eq_3 [symmetric] Suc_numeral semiring_norm)
  have "detect_action (button_env (\<lambda>n. 3 \<le> n)) ''FLIP'' 1 start_world
          = Some (False, (polls (button_env (\<lambda>n. 3 \<le> n)) 1 (attempt_start start_world))\<lparr>tick := tick start_world + 1 + 2\<rparr>)"
    using main [THEN conjunct2, THEN conjunct1, of 1 "button_env (\<lambda>n. 3 \<le> n)" 1 start_world "''FLIP''"] h1 it(5) by blast
  then have B: "detect_action (button_env (\<lambda>n. 3 \<le> n)) ''FLIP'' 1 start_world
          = Some (False, (polls (button_env (\<lambda>n. 3 \<le> n)) 1 (attempt_start start_world))\<lparr>tick := 3\<rparr>)"
    by (simp add: t)
  have C: "\<exists>r. detect_action (button_env (\<lambda>n. 3 \<le> n)) ''SHAKE'' 7 start_world = Some r"
    using main [THEN conjunct2, THEN conjunct2, THEN conjunct1, of "button_env (\<lambda>n. 3 \<le> n)" 7 start_world "''SHAKE''"] it(6)
    by blast
  have clock: "\<forall>t. \<exists>m. t \<le> monotonic (button_env (\<lambda>n. 3 \<le> n) (tick start_world + 1 + m))"
  proof
    fix t :: real
    obtain m :: nat where "2 * t \<le> real m" using real_arch_simple by blast
    then have "t \<le> monotonic (button_env (\<lambda>n. 3 \<le> n) (tick start_world + 1 + m))"
      by (simp add: button_env_def t)
    then show "\<exists>m. t \<le> monotonic (button_env (\<lambda>n. 3 \<le> n) (tick start_world + 1 + m))" ..
  qed
  have D: "\<forall>a limit. \<exists>r. detect_action (button_env (\<lambda>n. 3 \<le> n)) a limit start_world = Some r"
    using main [THEN conjunct2, THEN conjunct2, THEN conjunct2, THEN conjunct1,
        of "button_env (\<lambda>n. 3 \<le> n)" start_world] clock
    by blast
  from it(1) paw(1) it(2) paw(2) it(3) paw(3) A it(5) B C clock D show ?thesis by (intro conjI)
qed

subsection \<open>The game\<close>

lemma generate_sequence_length:
  "length (fst (generate_sequence rnd (int l) w)) = l + 1"
proof -
  have "nat (int l + 1) = l + 1" by simp
  then show ?thesis by (simp only: generate_sequence_def choices_length)
qed

lemma play_steps_append:
  "play_steps env base level (xs @ ys) score w =
     (case play_steps env base level xs score w of
        None \<Rightarrow> None
      | Some ((score1, ok), w1) \<Rightarrow>
          if ok then play_steps env base level ys score1 w1 else Some ((score1, False), w1))"
  by (induction xs arbitrary: score w) (auto split: option.splits)

lemma play_steps_won:
  "play_steps env base level seq score w = Some ((score1, True), w1)
     \<Longrightarrow> score1 = score + int (length seq)"
proof (induction seq arbitrary: score w)
  case Nil
  then show ?case by simp
next
  case (Cons act seq)
  from Cons.prems obtain w0 where
    "play_steps env base level seq (score + 1) w0 = Some ((score1, True), w1)"
    by (auto split: option.splits if_splits)
  from Cons.IH [OF this] show ?case by simp
qed

lemma play_levels_append:
  "play_levels env rnd base (xs @ ys) score w =
     (case play_levels env rnd base xs score w of
        None \<Rightarrow> None
      | Some ((score1, ok), w1) \<Rightarrow>
          if ok then play_levels env rnd base ys score1 w1 else Some ((score1, False), w1))"
  by (induction xs arbitrary: score w) (auto split: option.splits prod.splits)

lemma play_levels_won:
  "play_levels env rnd base levels score w = Some ((score1, True), w1)
     \<Longrightarrow> score1 = score + (\<Sum>l\<leftarrow>levels. int (l + 1) + 5)"
proof (induction levels arbitrary: score w)
  case Nil
  then show ?case by simp
next
  case (Cons level levels)
  obtain seq w0 where gen: "generate_sequence rnd (int level) w = (seq, w0)"
    by (cases "generate_sequence rnd (int level) w")
  then have len: "length seq = level + 1"
    using generate_sequence_length [of rnd level w] by simp
  from Cons.prems gen obtain score2 w2 where
    steps: "play_steps env base level seq score w0 = Some ((score2, True), w2)"
    and rest: "play_levels env rnd base levels (score2 + 5) w2 = Some ((score1, True), w1)"
    by (auto split: option.splits if_splits)
  from play_steps_won [OF steps] len have "score2 = score + int (level + 1)" by simp
  with Cons.IH [OF rest] show ?case by simp
qed

lemma levels_sum: "(\<Sum>l\<leftarrow>[1..<11]. int (l + 1) + 5) = 115"
proof -
  have "[1..<11] = [1, 2, 3, 4, 5, 6, 7, 8, 9, 10::nat]" by code_simp
  then show ?thesis by simp
qed


text \<open>
  A run that is won: the button is held down at every poll and the random source always
  draws the first action, so every gesture asked for is PAW and is seen in the first
  pass, as long as the time limit is more than the half second between two polls.
\<close>

lemma held_detect:
  assumes "1 / 2 < time_limit"
  shows "detect_action (button_env (\<lambda>n. True)) ''PAW'' time_limit w
           = Some (True, polls (button_env (\<lambda>n. True)) (Suc 0) (attempt_start w))"
proof (rule detect_action_success)
  show "\<forall>i<0. in_time (button_env (\<lambda>n. True)) time_limit w i
          \<and> \<not> seen_at (button_env (\<lambda>n. True)) ''PAW'' w i"
    by simp
  show "in_time (button_env (\<lambda>n. True)) time_limit w 0"
    using assms by (simp add: in_time_def button_env_def field_simps)
  show "seen_at (button_env (\<lambda>n. True)) ''PAW'' w 0"
    by (simp add: seen_at_def gesture_seen_def button_env_def)
qed

lemma held_steps:
  assumes "1 / 2 < time_limit_at base level"
  shows "\<exists>w1. play_steps (button_env (\<lambda>n. True)) base level (replicate k ''PAW'') score w
           = Some ((score + int k, True), w1)"
proof (induction k arbitrary: score w)
  case 0
  show ?case by simp
next
  case (Suc k)
  let ?w = "polls (button_env (\<lambda>n. True)) (Suc 0) (attempt_start w)"
  from Suc.IH [of "score + 1" ?w] obtain w1 where
    "play_steps (button_env (\<lambda>n. True)) base level (replicate k ''PAW'') (score + 1) ?w
       = Some ((score + 1 + int k, True), w1)"
    by blast
  then have "play_steps (button_env (\<lambda>n. True)) base level (replicate (Suc k) ''PAW'') score w
       = Some ((score + int (Suc k), True), w1)"
    by (simp add: held_detect [OF assms] del: polls.simps)
  then show ?case by blast
qed

lemma paw_choices: "fst (choices (\<lambda>n. 0) k w) = replicate k ''PAW''"
proof (induction k arbitrary: w)
  case 0
  show ?case by simp
next
  case (Suc k)
  have "fst (random_choice (\<lambda>n. 0) ACTIONS w) = ''PAW''"
    by (simp add: random_choice_def ACTIONS_def)
  then show ?case by (simp only: choices_Suc Suc.IH replicate_Suc)
qed

lemma held_levels:
  assumes "\<forall>l\<in>set levels. 1 / 2 < time_limit_at base l"
  shows "\<exists>score1 w1. play_levels (button_env (\<lambda>n. True)) (\<lambda>n. 0) base levels score w
           = Some ((score1, True), w1)"
  using assms
proof (induction levels arbitrary: score w)
  case Nil
  show ?case by simp
next
  case (Cons level levels)
  obtain seq w0 where gen: "generate_sequence (\<lambda>n. 0) (int level) w = (seq, w0)"
    by (cases "generate_sequence (\<lambda>n. 0) (int level) w")
  have "fst (generate_sequence (\<lambda>n. 0) (int level) w) = replicate (nat (int level + 1)) ''PAW''"
    by (simp only: generate_sequence_def paw_choices)
  with gen have seq: "seq = replicate (nat (int level + 1)) ''PAW''" by simp
  from Cons.prems have "1 / 2 < time_limit_at base level" by simp
  from held_steps [OF this, of "nat (int level + 1)" score w0] seq obtain w2 where
    steps: "play_steps (button_env (\<lambda>n. True)) base level seq score w0
       = Some ((score + int (nat (int level + 1)), True), w2)"
    by blast
  from Cons.prems have "\<forall>l\<in>set levels. 1 / 2 < time_limit_at base l" by simp
  from Cons.IH [OF this, of "score + int (nat (int level + 1)) + 5" w2] obtain score1 w1 where
    "play_levels (button_env (\<lambda>n. True)) (\<lambda>n. 0) base levels (score + int (nat (int level + 1)) + 5) w2
       = Some ((score1, True), w1)"
    by blast
  with gen steps have "play_levels (button_env (\<lambda>n. True)) (\<lambda>n. 0) base (level # levels) score w
       = Some ((score1, True), w1)"
    by simp
  then show ?case by blast
qed

lemma easy_limits: "\<forall>l\<in>set [1..<11]. 1 / 2 < time_limit_at (base_time ''EASY'') l"
proof
  have quarter: "(1::real) / 4 < 0.92 ^ 10" by (simp add: power_divide)
  fix l assume "l \<in> set [1..<11]"
  then have "l \<le> 10" by simp
  then have "(0.92::real) ^ 10 \<le> 0.92 ^ l"
    by (intro power_decreasing) simp_all
  with quarter have "(1::real) / 4 < 0.92 ^ l" by (rule less_le_trans)
  then show "1 / 2 < time_limit_at (base_time ''EASY'') l"
    by (simp add: time_limit_at_def base_time_def)
qed


text \<open>
  Claim C10. Whatever the difficulty, the random draws and the hardware samples, when
  \<open>play_game\<close> returns with \<open>won = True\<close> the score is \<open>115\<close>: the levels 1 to 10
  give \<open>l + 1\<close> points for their steps and \<open>5\<close> for the level each.
\<close>

theorem play_game_won_score:
  "play_game env rnd diff w = Some ((score, True), w1) \<Longrightarrow> score = 115"
proof -
  assume "play_game env rnd diff w = Some ((score, True), w1)"
  then have "play_levels env rnd (base_time diff) [1..<11] 0 w = Some ((score, True), w1)"
    by (simp only: play_game_def)
  then have "score = 0 + (\<Sum>l\<leftarrow>[1..<11]. int (l + 1) + 5)"
    by (rule play_levels_won)
  then show "score = 115" by (simp only: levels_sum)
qed


theorem play_game_won_score_witness:
  "\<exists>w1. play_game (button_env (\<lambda>n. True)) (\<lambda>n. 0) ''EASY'' start_world = Some ((115, True), w1)"
proof -
  from held_levels [OF easy_limits, of 0 start_world] obtain score w1 where
    "play_levels (button_env (\<lambda>n. True)) (\<lambda>n. 0) (base_time ''EASY'') [1..<11] 0 start_world
       = Some ((score, True), w1)"
    by blast
  then have run: "play_game (button_env (\<lambda>n. True)) (\<lambda>n. 0) ''EASY'' start_world = Some ((score, True), w1)"
    by (simp only: play_game_def)
  from play_game_won_score [OF run] have "score = 115" .
  with run show ?thesis by blast
qed

text \<open>
  Claim C1. Suppose the recogniser first fails at level \<open>L\<close>, step \<open>S\<close>: the levels
  before \<open>L\<close> are played to their end, the first \<open>S - 1\<close> gestures of the sequence
  generated for level \<open>L\<close> are recognised, and the recogniser returns failure for
  gesture \<open>S\<close>. Then \<open>play_game\<close> returns \<open>won = False\<close> with the score
  \<open>(\<Sum>l = 1..<L. (l + 1) + 5) + (S - 1)\<close>: one point for each recognised gesture, five for
  each completed level, none for the failing level.
\<close>

theorem play_game_first_failure:
  assumes "1 \<le> L" "L \<le> 10" "1 \<le> S" "S \<le> L + 1"
    and prior: "play_levels env rnd (base_time diff) [1..<L] 0 w = Some ((score1, True), w1)"
    and gen: "generate_sequence rnd (int L) w1 = (seq, w2)"
    and pre: "play_steps env (base_time diff) L (take (S - 1) seq) score1 w2 = Some ((score2, True), w3)"
    and fail: "detect_action env (seq ! (S - 1)) (time_limit_at (base_time diff) L) w3 = Some (False, w4)"
  shows "play_game env rnd diff w = Some (((\<Sum>l = 1..<L. int (l + 1) + 5) + int (S - 1), False), w4)
         \<and> score1 = (\<Sum>l = 1..<L. int (l + 1) + 5)
         \<and> score2 = score1 + int (S - 1)"
proof -
  have len: "length seq = L + 1"
    using generate_sequence_length [of rnd L w1] gen by simp
  have s1: "score1 = (\<Sum>l = 1..<L. int (l + 1) + 5)"
    using play_levels_won [OF prior] by (simp add: interv_sum_list_conv_sum_set_nat)
  have s2: "score2 = score1 + int (S - 1)"
    using play_steps_won [OF pre] assms(3,4) len by simp
  have lt: "S - 1 < length seq" using assms(3,4) len by simp
  have split_seq: "seq = take (S - 1) seq @ (seq ! (S - 1)) # drop (Suc (S - 1)) seq"
    using lt by (rule id_take_nth_drop)
  have "play_steps env (base_time diff) L (take (S - 1) seq @ (seq ! (S - 1)) # drop (Suc (S - 1)) seq) score1 w2
          = Some ((score2, False), w4)"
    using fail by (simp only: play_steps_append pre) simp
  then have level: "play_steps env (base_time diff) L seq score1 w2 = Some ((score2, False), w4)"
    using split_seq by simp
  have split_levels: "[1..<11] = [1..<L] @ L # [Suc L..<11]"
  proof -
    have "[1..<L + (11 - L)] = [1..<L] @ [L..<L + (11 - L)]"
      using assms(1) by (rule upt_add_eq_append)
    moreover have "L + (11 - L) = 11" using assms(2) by simp
    moreover have "[L..<11] = L # [Suc L..<11]"
      using assms(2) by (intro upt_conv_Cons) simp
    ultimately show ?thesis by simp
  qed
  have "play_levels env rnd (base_time diff) ([1..<L] @ L # [Suc L..<11]) 0 w = Some ((score2, False), w4)"
    using gen level by (simp only: play_levels_append prior) simp
  then have "play_levels env rnd (base_time diff) [1..<11] 0 w = Some ((score2, False), w4)"
    by (simp only: split_levels [symmetric])
  then have "play_game env rnd diff w = Some ((score2, False), w4)"
    by (simp only: play_game_def)
  with s1 s2 show ?thesis by simp
qed

theorem play_game_first_failure_witness:
  "play_levels (button_env (\<lambda>n. n < 9)) (\<lambda>n. 0) (base_time ''EASY'') [1..<2] 0 start_world
     = Some ((7, True), start_world\<lparr>tick := 4, draws := 2\<rparr>)
   \<and> generate_sequence (\<lambda>n. 0) (int 2) (start_world\<lparr>tick := 4, draws := 2\<rparr>)
     = ([''PAW'', ''PAW'', ''PAW''], start_world\<lparr>tick := 4, draws := 5\<rparr>)
   \<and> play_steps (button_env (\<lambda>n. n < 9)) (base_time ''EASY'') 2 (take (3 - 1) [''PAW'', ''PAW'', ''PAW'']) 7
        (start_world\<lparr>tick := 4, draws := 5\<rparr>)
     = Some ((9, True), start_world\<lparr>tick := 8, draws := 5\<rparr>)
   \<and> detect_action (button_env (\<lambda>n. n < 9)) ([''PAW'', ''PAW'', ''PAW''] ! (3 - 1))
        (time_limit_at (base_time ''EASY'') 2) (start_world\<lparr>tick := 8, draws := 5\<rparr>)
     = Some (False, start_world\<lparr>tick := 13, draws := 5\<rparr>)
   \<and> play_game (button_env (\<lambda>n. n < 9)) (\<lambda>n. 0) ''EASY'' start_world
     = Some ((9, False), start_world\<lparr>tick := 13, draws := 5\<rparr>)"
proof -
  have prior: "play_levels (button_env (\<lambda>n. n < 9)) (\<lambda>n. 0) (base_time ''EASY'') [1..<2] 0 start_world
     = Some ((7, True), start_world\<lparr>tick := 4, draws := 2\<rparr>)"
    by code_simp
  have gen: "generate_sequence (\<lambda>n. 0) (int 2) (start_world\<lparr>tick := 4, draws := 2\<rparr>)
     = ([''PAW'', ''PAW'', ''PAW''], start_world\<lparr>tick := 4, draws := 5\<rparr>)"
    by code_simp
  have pre: "play_steps (button_env (\<lambda>n. n < 9)) (base_time ''EASY'') 2 (take (3 - 1) [''PAW'', ''PAW'', ''PAW'']) 7
        (start_world\<lparr>tick := 4, draws := 5\<rparr>)
     = Some ((9, True), start_world\<lparr>tick := 8, draws := 5\<rparr>)"
    by code_simp
  have fail: "detect_action (button_env (\<lambda>n. n < 9)) ([''PAW'', ''PAW'', ''PAW''] ! (3 - 1))
        (time_limit_at (base_time ''EASY'') 2) (start_world\<lparr>tick := 8, draws := 5\<rparr>)
     = Some (False, start_world\<lparr>tick := 13, draws := 5\<rparr>)"
    by code_simp
  have bounds: "(1::nat) \<le> 2" "(2::nat) \<le> 10" "(1::nat) \<le> 3" "(3::nat) \<le> 2 + 1"
    by simp_all
  have total: "(\<Sum>l = 1..<2. int (l + 1) + 5) + int (3 - 1) = 9"
    by (simp add: numeral_2_eq_2)
  from play_game_first_failure [OF bounds prior gen pre fail]
  have "play_game (button_env (\<lambda>n. n < 9)) (\<lambda>n. 0) ''EASY'' start_world
     = Some (((\<Sum>l = 1..<2. int (l + 1) + 5) + int (3 - 1), False), start_world\<lparr>tick := 13, draws := 5\<rparr>)"
    by (rule conjunct1)
  then have "play_game (button_env (\<lambda>n. n < 9)) (\<lambda>n. 0) ''EASY'' start_world
     = Some ((9, False), start_world\<lparr>tick := 13, draws := 5\<rparr>)"
    by (simp only: total)
  with prior gen pre fail show ?thesis by (intro conjI)
qed

end
